theory Spec2Isabelle
  imports Main "HOL-Library.AList" "HOL-Library.Word"
begin

unbundle bit_operations_syntax

section \<open>HeapShared: archiving and restoring heap object subgraphs\<close>

text \<open>
  A shallow embedding of the subgraph archiving engine of \<^verbatim>\<open>HeapShared\<close> (the second
  document of \<^verbatim>\<open>src/hotspot/share/cds/aotConstantPoolResolver.hpp\<close>, which holds the text of
  \<^verbatim>\<open>heapShared.cpp\<close>). Heap objects and class descriptors are addresses; the null reference
  is \<open>None\<close> at type \<open>oop option\<close>. Array indices, field offsets and levels are C++ \<^verbatim>\<open>int\<close>s
  and modelled as \<open>int\<close>, with the 32-bit wrap-around written out where the code computes a
  permanent index (\<open>int32\<close>); sizes and the statistics counters are words. Debug-only
  \<^verbatim>\<open>assert\<close>s are not branches of the model, with one exception: an array access out of
  bounds and the use of a null pointer are errors of the model, since the product build
  has no defined behaviour there. Left out are logging, the diagnostic stacks \<^verbatim>\<open>_trace\<close> and
  \<^verbatim>\<open>_context\<close>, the locks, and the verification passes (\<^verbatim>\<open>verify_the_heap\<close>, and
  \<^verbatim>\<open>verify_subgraph_from_static_field\<close>, which a build without \<^verbatim>\<open>PRODUCT\<close> runs at the end of
  \<^verbatim>\<open>archive_object_subgraphs\<close>): they assert, and count what they visit in
  \<^verbatim>\<open>_num_total_verifications\<close> and \<^verbatim>\<open>_num_new_walked_objs\<close>.
\<close>

type_synonym oop = nat
type_synonym klass = nat

datatype vm_error =
    UnrecoverableWritingError
  | ArrayIndexOutOfBounds
  | NullPointer
  | NotAnObjArray

subsection \<open>The Root Table at run time\<close>

text \<open>
  \<^verbatim>\<open>objArrayOopDesc::obj_at\<close> and \<^verbatim>\<open>obj_at_put\<close>: the index is an \<^verbatim>\<open>int\<close>; an index outside
  the array is an error.
\<close>

definition obj_at :: "oop option list \<Rightarrow> int \<Rightarrow> vm_error + oop option" where
  "obj_at a index =
     (if 0 \<le> index \<and> index < int (length a) then Inr (a ! nat index)
      else Inl ArrayIndexOutOfBounds)"

definition obj_at_put :: "oop option list \<Rightarrow> int \<Rightarrow> oop option \<Rightarrow> vm_error + oop option list" where
  "obj_at_put a index v =
     (if 0 \<le> index \<and> index < int (length a) then Inr (a[nat index := v])
      else Inl ArrayIndexOutOfBounds)"

datatype klass_kind = InstanceKlass | ObjArrayKlass klass | TypeArrayKlass

text \<open>
  The dump-time bookkeeping of one holder class (\<^verbatim>\<open>KlassSubGraphInfo\<close>) and its frozen form
  (\<^verbatim>\<open>ArchivedKlassSubGraphInfoRecord\<close>). An array that is \<^verbatim>\<open>nullptr\<close> is \<open>None\<close>. The entry
  fields are a flat \<^verbatim>\<open>int\<close> array: field offset, root index, field offset, root index, ...
\<close>

record KlassSubGraphInfo =
  info_k :: klass
  info_subgraph_object_klasses :: "klass list option"
  info_subgraph_entry_fields :: "int list option"
  info_is_full_module_graph :: bool
  info_has_non_early_klasses :: bool

record ArchivedKlassSubGraphInfoRecord =
  rec_k :: klass
  rec_entry_field_records :: "int list option"
  rec_subgraph_object_klasses :: "klass list option"
  rec_is_full_module_graph :: bool
  rec_has_non_early_klasses :: bool

text \<open>
  \<^verbatim>\<open>ArchivedKlassSubGraphInfoRecord::init\<close>: a full-module-graph record is frozen with
  \<^verbatim>\<open>_has_non_early_klasses = false\<close>; the two arrays are copied element by element.
\<close>

definition ArchivedKlassSubGraphInfoRecord_init :: "KlassSubGraphInfo \<Rightarrow> ArchivedKlassSubGraphInfoRecord" where
  "ArchivedKlassSubGraphInfoRecord_init info =
     \<lparr>rec_k = info_k info,
      rec_entry_field_records =
        (case info_subgraph_entry_fields info of
           None \<Rightarrow> None
         | Some entry_fields \<Rightarrow> Some (map (\<lambda>i. entry_fields ! i) [0..<length entry_fields])),
      rec_subgraph_object_klasses =
        (case info_subgraph_object_klasses info of
           None \<Rightarrow> None
         | Some ks \<Rightarrow> Some (map (\<lambda>i. ks ! i) [0..<length ks])),
      rec_is_full_module_graph = info_is_full_module_graph info,
      rec_has_non_early_klasses =
        (if info_is_full_module_graph info then False else info_has_non_early_klasses info)\<rparr>"

text \<open>
  What \<^verbatim>\<open>SystemDictionary::resolve_or_null\<close> does for a class: it loads the class, returns
  null, or leaves a pending exception.
\<close>

datatype resolve_result = Resolved | ResolvedNull | ResolveThrows

text \<open>
  The state of the running VM that restoration reads and writes: the root array
  (\<^verbatim>\<open>HeapShared::roots()\<close>), the object arrays of the heap, the static fields of the class
  mirrors (by class and field offset), the run-time subgraph table, the classes that have a
  class loader data and those that are initialized, the pending exception of the thread, and
  the flags the compatibility gates read. \<open>resolve_or_null\<close> and \<open>initialize_throws\<close> stand for
  the class loader and the class initializers, which are outside this file; the two field
  offsets are those \<^verbatim>\<open>find_field\<close> gives for \<^verbatim>\<open>archivedMethodTypes\<close> and \<^verbatim>\<open>objectOnlyTypes\<close>.
  The last three fields are the number of segments of permanent objects at the end of the
  root array, the lazily built Permanent-Index Table (a hash table, here an association list
  under \<open>AList.update\<close>; \<open>None\<close> before it is built), and the constant
  \<^verbatim>\<open>ArchiveHeapWriter::PERMOBJ_SEGMENT_MAX_SHIFT\<close>, which is declared outside src/.
\<close>

record runtime_state =
  roots :: "oop option list"
  heap_obj_arrays :: "oop \<rightharpoonup> oop option list"
  mirror_static_fields :: "klass \<Rightarrow> int \<rightharpoonup> oop option"
  ArchiveHeapLoader_is_in_use :: bool
  is_loading_full_module_graph :: bool
  should_post_class_file_load_hook :: bool
  run_time_subgraph_info_table :: "klass \<rightharpoonup> ArchivedKlassSubGraphInfoRecord"
  is_shared :: "klass \<Rightarrow> bool"
  rt_klass_kind :: "klass \<Rightarrow> klass_kind"
  klass_is_MethodType :: "klass \<Rightarrow> bool"
  MethodType_field_offsets :: "int \<times> int"
  class_loader_data_set :: "klass set"
  initialized_klasses :: "klass set"
  resolve_or_null :: "klass \<Rightarrow> resolve_result"
  initialize_throws :: "klass \<Rightarrow> bool"
  pending_exception :: bool
  permobj_segments :: int
  permanent_index_table :: "(oop option \<times> int) list option"
  PERMOBJ_SEGMENT_MAX_SHIFT :: nat

definition clear_root :: "int \<Rightarrow> runtime_state \<Rightarrow> vm_error + runtime_state" where
  "clear_root index s =
     (if ArchiveHeapLoader_is_in_use s then
        (case obj_at_put (roots s) index None of
           Inl e \<Rightarrow> Inl e
         | Inr r \<Rightarrow> Inr (s\<lparr>roots := r\<rparr>))
      else Inr s)"

definition get_root :: "int \<Rightarrow> bool \<Rightarrow> runtime_state \<Rightarrow> vm_error + (oop option \<times> runtime_state)" where
  "get_root index clear s =
     (case obj_at (roots s) index of
        Inl e \<Rightarrow> Inl e
      | Inr result \<Rightarrow>
          (if clear then
             (case clear_root index s of
                Inl e \<Rightarrow> Inl e
              | Inr s' \<Rightarrow> Inr (result, s'))
           else Inr (result, s)))"

subsection \<open>The Permanent-Index Table\<close>

text \<open>A C++ \<^verbatim>\<open>int\<close> result, wrapped to 32 bits in two's complement.\<close>

definition int32 :: "int \<Rightarrow> int" where
  "int32 x = signed_take_bit 31 x"

text \<open>
  Modelled from the spec: \<^verbatim>\<open>ArchiveHeapWriter::PERMOBJ_SEGMENT_MAX_MASK\<close> is not under src/. The
  segments are "fixed-size blocks" and an index is \<open>(block_index << SHIFT) | offset_within_block\<close>,
  so the mask selects the \<open>SHIFT\<close> low bits.
\<close>

definition PERMOBJ_SEGMENT_MAX_MASK :: "runtime_state \<Rightarrow> int" where
  "PERMOBJ_SEGMENT_MAX_MASK s = 2 ^ PERMOBJ_SEGMENT_MAX_SHIFT s - 1"

text \<open>The cast of a root to \<^verbatim>\<open>objArrayOop\<close> and the use of the array.\<close>

definition as_objArray :: "runtime_state \<Rightarrow> oop option \<Rightarrow> vm_error + oop option list" where
  "as_objArray s a =
     (case a of
        None \<Rightarrow> Inl NullPointer
      | Some x \<Rightarrow> (case heap_obj_arrays s x of None \<Rightarrow> Inl NotAnObjArray | Some elems \<Rightarrow> Inr elems))"

text \<open>
  The two loops of \<^verbatim>\<open>get_archived_object_permanent_index\<close> that build the table: over the
  elements of segment \<open>i\<close> from position \<open>j\<close> on, and over the segments from \<open>i\<close> on.
\<close>

fun index_segment ::
  "nat \<Rightarrow> int \<Rightarrow> oop option list \<Rightarrow> int \<Rightarrow> (oop option \<times> int) list \<Rightarrow> (oop option \<times> int) list" where
  "index_segment shift i [] j tbl = tbl"
| "index_segment shift i (x # xs) j tbl =
     index_segment shift i xs (j + 1) (AList.update x (int32 (int32 (push_bit shift i) + j)) tbl)"

fun index_segments ::
  "runtime_state \<Rightarrow> int \<Rightarrow> nat \<Rightarrow> int \<Rightarrow> (oop option \<times> int) list \<Rightarrow> vm_error + (oop option \<times> int) list" where
  "index_segments s first_permobj_segment 0 i tbl = Inr tbl"
| "index_segments s first_permobj_segment (Suc n) i tbl =
     (case obj_at (roots s) (i + first_permobj_segment) of
        Inl e \<Rightarrow> Inl e
      | Inr a \<Rightarrow>
          (case as_objArray s a of
             Inl e \<Rightarrow> Inl e
           | Inr elems \<Rightarrow>
               index_segments s first_permobj_segment n (i + 1)
                 (index_segment (PERMOBJ_SEGMENT_MAX_SHIFT s) i elems 0 tbl)))"

definition get_archived_object_permanent_index ::
  "oop option \<Rightarrow> runtime_state \<Rightarrow> vm_error + (int \<times> runtime_state)" where
  "get_archived_object_permanent_index obj s =
     (if permobj_segments s \<le> 0 then Inr (- 1, s)
      else
        (let first_permobj_segment = int (length (roots s)) - permobj_segments s
         in (case (case permanent_index_table s of
                     None \<Rightarrow> index_segments s first_permobj_segment (nat (permobj_segments s)) 0 []
                   | Some tbl \<Rightarrow> Inr tbl) of
               Inl e \<Rightarrow> Inl e
             | Inr tbl \<Rightarrow>
                 Inr (case map_of tbl obj of None \<Rightarrow> - 1 | Some n \<Rightarrow> n,
                      s\<lparr>permanent_index_table := Some tbl\<rparr>))))"

definition get_archived_object :: "int \<Rightarrow> runtime_state \<Rightarrow> vm_error + oop option" where
  "get_archived_object permanent_index s =
     (let first_permobj_segment = int (length (roots s)) - permobj_segments s;
          upper = drop_bit (PERMOBJ_SEGMENT_MAX_SHIFT s) permanent_index;
          lower = permanent_index AND PERMOBJ_SEGMENT_MAX_MASK s
      in (case obj_at (roots s) (upper + first_permobj_segment) of
            Inl e \<Rightarrow> Inl e
          | Inr a \<Rightarrow>
              (case as_objArray s a of
                 Inl e \<Rightarrow> Inl e
               | Inr elems \<Rightarrow> obj_at elems lower)))"

subsection \<open>The restoration protocol\<close>

definition obj_field_put :: "klass \<Rightarrow> int \<Rightarrow> oop option \<Rightarrow> runtime_state \<Rightarrow> runtime_state" where
  "obj_field_put k offset v s =
     s\<lparr>mirror_static_fields := (mirror_static_fields s)(k := (mirror_static_fields s k)(offset \<mapsto> v))\<rparr>"

text \<open>
  \<^verbatim>\<open>HeapShared::resolve_or_init(Klass*, bool, TRAPS)\<close>. Without \<open>do_init\<close> a class with no
  class loader data is resolved by name; with \<open>do_init\<close> an instance or object array class is
  initialized. Either may leave a pending exception.
\<close>

definition resolve_or_init :: "klass \<Rightarrow> bool \<Rightarrow> runtime_state \<Rightarrow> runtime_state" where
  "resolve_or_init k do_init s =
     (if \<not> do_init then
        (if k \<notin> class_loader_data_set s then
           (case resolve_or_null s k of
              Resolved \<Rightarrow> s\<lparr>class_loader_data_set := insert k (class_loader_data_set s)\<rparr>
            | ResolvedNull \<Rightarrow> s
            | ResolveThrows \<Rightarrow> s\<lparr>pending_exception := True\<rparr>)
         else s)
      else
        (case rt_klass_kind s k of
           TypeArrayKlass \<Rightarrow> s
         | _ \<Rightarrow>
            (if initialize_throws s k then s\<lparr>pending_exception := True\<rparr>
             else s\<lparr>initialized_klasses := insert k (initialized_klasses s)\<rparr>)))"

text \<open>
  The loop of \<^verbatim>\<open>resolve_or_init_classes_for_subgraph_of\<close> over the classes of the record: it
  stops with \<^verbatim>\<open>nullptr\<close> (\<open>False\<close>) at a class that is not shared or at a pending exception.
\<close>

fun resolve_or_init_klasses :: "klass list \<Rightarrow> bool \<Rightarrow> runtime_state \<Rightarrow> bool \<times> runtime_state" where
  "resolve_or_init_klasses [] do_init s = (True, s)"
| "resolve_or_init_klasses (klass # klasses) do_init s =
     (if \<not> is_shared s klass then (False, s)
      else
        (let s' = resolve_or_init klass do_init s
         in if pending_exception s' then (False, s')
            else resolve_or_init_klasses klasses do_init s'))"

text \<open>
  The block of \<^verbatim>\<open>resolve_or_init_classes_for_subgraph_of\<close> for \<^verbatim>\<open>java/lang/invoke/MethodType\<close>:
  it reads the root of the record's second entry field value without clearing it and stores
  the first two elements of that array into two static fields of the holder.
\<close>

definition preseed_MethodType :: "klass \<Rightarrow> ArchivedKlassSubGraphInfoRecord \<Rightarrow> runtime_state \<Rightarrow> vm_error + runtime_state" where
  "preseed_MethodType k record s =
     (case rec_entry_field_records record of
        None \<Rightarrow> Inl NullPointer
      | Some efr \<Rightarrow>
          (if length efr < 2 then Inl ArrayIndexOutOfBounds
           else
             (case get_root (efr ! 1) False s of
                Inl e \<Rightarrow> Inl e
              | Inr (None, s1) \<Rightarrow> Inr s1
              | Inr (Some obj, s1) \<Rightarrow>
                  (case heap_obj_arrays s1 obj of
                     None \<Rightarrow> Inl NotAnObjArray
                   | Some archivedObjects \<Rightarrow>
                       (case obj_at archivedObjects 0 of
                          Inl e \<Rightarrow> Inl e
                        | Inr v0 \<Rightarrow>
                            (case obj_at archivedObjects 1 of
                               Inl e \<Rightarrow> Inl e
                             | Inr v1 \<Rightarrow>
                                 Inr (obj_field_put k (snd (MethodType_field_offsets s1)) v1
                                       (obj_field_put k (fst (MethodType_field_offsets s1)) v0 s1))))))))"

text \<open>
  \<^verbatim>\<open>HeapShared::resolve_or_init_classes_for_subgraph_of\<close>: the result is the record, or
  \<^verbatim>\<open>nullptr\<close> (\<open>None\<close>) when the class is not shared, has no record, a compatibility gate
  rejects the record, a class of the record is not shared, or an exception is pending.
\<close>

definition resolve_or_init_classes_for_subgraph_of ::
  "klass \<Rightarrow> bool \<Rightarrow> runtime_state \<Rightarrow> vm_error + (ArchivedKlassSubGraphInfoRecord option \<times> runtime_state)" where
  "resolve_or_init_classes_for_subgraph_of k do_init s =
     (if \<not> is_shared s k then Inr (None, s)
      else
        (case run_time_subgraph_info_table s k of
           None \<Rightarrow> Inr (None, s)
         | Some record \<Rightarrow>
             (if rec_is_full_module_graph record \<and> \<not> is_loading_full_module_graph s then Inr (None, s)
              else if rec_has_non_early_klasses record \<and> should_post_class_file_load_hook s then Inr (None, s)
              else
                (case (if do_init \<and> klass_is_MethodType s k then preseed_MethodType k record s else Inr s) of
                   Inl e \<Rightarrow> Inl e
                 | Inr s1 \<Rightarrow>
                     (let s2 = resolve_or_init k do_init s1
                      in if pending_exception s2 then Inr (None, s2)
                         else
                           (case rec_subgraph_object_klasses record of
                              None \<Rightarrow> Inr (Some record, s2)
                            | Some klasses \<Rightarrow>
                                (case resolve_or_init_klasses klasses do_init s2 of
                                   (True, s3) \<Rightarrow> Inr (Some record, s3)
                                 | (False, s3) \<Rightarrow> Inr (None, s3))))))))"

text \<open>
  The loop of \<^verbatim>\<open>clear_archived_roots_of\<close> over the entry field pairs: \<^verbatim>\<open>clear_root\<close> on the
  root index of every pair. An array of odd length is read past its end.
\<close>

fun clear_entry_roots :: "int list \<Rightarrow> runtime_state \<Rightarrow> vm_error + runtime_state" where
  "clear_entry_roots [] s = Inr s"
| "clear_entry_roots [field_offset] s = Inl ArrayIndexOutOfBounds"
| "clear_entry_roots (field_offset # root_index # rest) s =
     (case clear_root root_index s of
        Inl e \<Rightarrow> Inl e
      | Inr s' \<Rightarrow> clear_entry_roots rest s')"

definition clear_archived_roots_of :: "klass \<Rightarrow> runtime_state \<Rightarrow> vm_error + runtime_state" where
  "clear_archived_roots_of k s =
     (case run_time_subgraph_info_table s k of
        None \<Rightarrow> Inr s
      | Some record \<Rightarrow>
          (case rec_entry_field_records record of
             None \<Rightarrow> Inr s
           | Some efr \<Rightarrow> clear_entry_roots efr s))"

definition resolve_classes_for_subgraph_of :: "klass \<Rightarrow> runtime_state \<Rightarrow> vm_error + runtime_state" where
  "resolve_classes_for_subgraph_of k s =
     (case resolve_or_init_classes_for_subgraph_of k False s of
        Inl e \<Rightarrow> Inl e
      | Inr (record, s1) \<Rightarrow>
          (let s2 = (if pending_exception s1 then s1\<lparr>pending_exception := False\<rparr> else s1)
           in if record = None then clear_archived_roots_of k s2 else Inr s2))"

text \<open>
  The loop of \<^verbatim>\<open>init_archived_fields_for\<close>: every entry field gets its root, and the root is
  cleared.
\<close>

fun init_entry_fields :: "klass \<Rightarrow> int list \<Rightarrow> runtime_state \<Rightarrow> vm_error + runtime_state" where
  "init_entry_fields k [] s = Inr s"
| "init_entry_fields k [field_offset] s = Inl ArrayIndexOutOfBounds"
| "init_entry_fields k (field_offset # root_index # rest) s =
     (case get_root root_index True s of
        Inl e \<Rightarrow> Inl e
      | Inr (v, s') \<Rightarrow> init_entry_fields k rest (obj_field_put k field_offset v s'))"

definition init_archived_fields_for :: "klass \<Rightarrow> ArchivedKlassSubGraphInfoRecord \<Rightarrow> runtime_state \<Rightarrow> vm_error + runtime_state" where
  "init_archived_fields_for k record s =
     (case rec_entry_field_records record of
        None \<Rightarrow> Inr s
      | Some efr \<Rightarrow> init_entry_fields k efr s)"

definition initialize_from_archived_subgraph :: "klass \<Rightarrow> runtime_state \<Rightarrow> vm_error + runtime_state" where
  "initialize_from_archived_subgraph k s =
     (if \<not> ArchiveHeapLoader_is_in_use s then Inr s
      else
        (case resolve_or_init_classes_for_subgraph_of k True s of
           Inl e \<Rightarrow> Inl e
         | Inr (record, s1) \<Rightarrow>
             (if pending_exception s1 then Inr (s1\<lparr>pending_exception := False\<rparr>)
              else
                (case record of
                   None \<Rightarrow> Inr s1
                 | Some r \<Rightarrow> init_archived_fields_for k r s1))))"

text \<open>The root indices of an entry field array: every second element.\<close>

fun entry_root_indices :: "int list \<Rightarrow> int list" where
  "entry_root_indices (field_offset # root_index # rest) = root_index # entry_root_indices rest"
| "entry_root_indices _ = []"

subsection \<open>The dump-time heap and class metadata\<close>

text \<open>
  The well-known classes \<^verbatim>\<open>vmClasses::xxx_klass()\<close> the code names.
\<close>

datatype vm_class =
    Boolean_klass | Character_klass | Float_klass | Double_klass | Byte_klass | Short_klass
  | Integer_klass | Long_klass | Void_klass | Object_klass | String_klass

text \<open>
  What the dump reads and never writes while it walks the heap. The first group describes
  the live objects: class, size in words (\<^verbatim>\<open>size_t\<close>), the reference fields in the order
  \<^verbatim>\<open>oop_iterate\<close> visits them (null is \<open>None\<close>), and the type tests of \<^verbatim>\<open>javaClasses\<close>. The
  predicates \<open>is_supported_for_archiving\<close>, \<open>is_too_large_to_archive\<close>, \<open>check_archived_module_oop\<close>
  and \<open>is_early_klass\<close> belong to \<^verbatim>\<open>JavaClasses\<close>, \<^verbatim>\<open>ArchiveHeapWriter\<close>, \<^verbatim>\<open>Modules\<close> and
  \<^verbatim>\<open>SystemDictionaryShared\<close>; the scratch mirror tables are filled by
  \<^verbatim>\<open>init_scratch_objects\<close> before the walk; \<open>mirror_obj_field\<close> is the value of a static
  reference field of a class mirror; \<open>PRODUCT\<close> says whether the build defines the macro.
  \<open>hash_sequence\<close> is the sequence of identity hashes the VM hands out to objects that have
  none yet.
\<close>

record dump_env =
  obj_klass :: "oop \<Rightarrow> klass"
  obj_size :: "oop \<Rightarrow> 64 word"
  obj_oop_fields :: "oop \<Rightarrow> oop option list"
  is_enum_obj :: "oop \<Rightarrow> bool"
  enum_constant_refs :: "oop \<Rightarrow> oop list"
  java_lang_Class_is_instance :: "oop \<Rightarrow> bool"
  java_lang_Class_is_primitive :: "oop \<Rightarrow> bool"
  java_lang_Class_as_BasicType :: "oop \<Rightarrow> nat"
  java_lang_Class_as_Klass :: "oop \<Rightarrow> klass"
  java_lang_Module_is_instance :: "oop \<Rightarrow> bool"
  ResolvedMethodName_is_instance :: "oop \<Rightarrow> bool"
  check_archived_module_oop :: "oop \<Rightarrow> bool"
  is_supported_for_archiving :: "oop \<Rightarrow> bool"
  is_too_large_to_archive :: "64 word \<Rightarrow> bool"
  scratch_basic_type_mirrors :: "nat \<Rightarrow> oop option"
  scratch_java_mirror_table :: "klass \<rightharpoonup> oop"
  hash_sequence :: "nat \<Rightarrow> 32 word"
  klass_kind :: "klass \<Rightarrow> klass_kind"
  get_buffered_klass :: "klass \<Rightarrow> klass"
  klass_java_mirror :: "klass \<Rightarrow> oop"
  vmClasses :: "vm_class \<Rightarrow> klass"
  objectArrayKlassObj :: klass
  module_is_java_base :: "klass \<Rightarrow> bool"
  module_is_named :: "klass \<Rightarrow> bool"
  package_is_null :: "klass \<Rightarrow> bool"
  is_early_klass :: "klass \<Rightarrow> bool"
  mirror_obj_field :: "klass \<Rightarrow> int \<Rightarrow> oop option"
  ArchiveInvokeDynamic :: bool
  PRODUCT :: bool

text \<open>The statistics that feed the log lines of the dump.\<close>

record dump_stats =
  total_obj_count :: "64 word"
  total_obj_size :: "64 word"
  alloc_count :: "nat \<Rightarrow> 64 word"
  alloc_size :: "nat \<Rightarrow> 64 word"
  num_new_walked_objs :: "32 word"
  num_new_archived_objs :: "32 word"
  num_old_recorded_klasses :: "32 word"
  num_total_subgraph_recordings :: "32 word"
  num_total_walked_objs :: "32 word"
  num_total_archived_objs :: "32 word"
  num_total_recorded_klasses :: "32 word"
  num_total_verifications :: "32 word"

record CachedOopInfo =
  referrer :: "oop option"

datatype native_pointer_field = klass_offset | array_klass_offset | vmtarget_offset

text \<open>
  What the dump writes: the Identity Cache (\<^verbatim>\<open>_archived_object_cache\<close>, a hash table, here
  an association list under \<open>AList.update\<close>), the Session Visited Set (\<^verbatim>\<open>_seen_objects_table\<close>,
  which exists between \<^verbatim>\<open>init_seen_objects_table\<close> and \<^verbatim>\<open>delete_seen_objects_table\<close>; the
  walker runs only there), the Root Table under construction (\<^verbatim>\<open>_pending_roots\<close>), the
  objects handed to \<^verbatim>\<open>ArchiveHeapWriter::add_source_obj\<close> and the fields handed to
  \<^verbatim>\<open>mark_native_pointer\<close>, the module objects handed to
  \<^verbatim>\<open>Modules::update_oops_in_archived_module\<close>, the identity hashes in the object headers
  and how many the VM has handed out, the dump-time subgraph table, the referencing object
  of \<^verbatim>\<open>WalkOopAndArchiveClosure::_current\<close>, and the statistics.
\<close>

record dump_state =
  archived_object_cache :: "(oop \<times> CachedOopInfo) list"
  seen_objects_table :: "oop set"
  pending_roots :: "oop option list"
  source_objs :: "oop list"
  native_pointers :: "(oop \<times> native_pointer_field) list"
  archived_module_roots :: "(oop \<times> int) list"
  mark_hash :: "oop \<rightharpoonup> 32 word"
  hashes_generated :: nat
  dump_time_subgraph_info_table :: "klass \<rightharpoonup> KlassSubGraphInfo"
  walker_current :: "oop option"
  stats :: dump_stats

subsection \<open>The Identity Cache and archive_object\<close>

definition has_been_archived :: "dump_state \<Rightarrow> oop \<Rightarrow> bool" where
  "has_been_archived s obj = (map_of (archived_object_cache s) obj \<noteq> None)"

definition append_root :: "oop option \<Rightarrow> dump_state \<Rightarrow> int \<times> dump_state" where
  "append_root obj s = (int (length (pending_roots s)), s\<lparr>pending_roots := pending_roots s @ [obj]\<rparr>)"

text \<open>\<^verbatim>\<open>ALLOC_STAT_SLOTS\<close> is declared in \<^verbatim>\<open>heapShared.hpp\<close>, which is not under src/.\<close>

definition ALLOC_STAT_SLOTS :: nat where
  "ALLOC_STAT_SLOTS = 16"

fun count_allocation_loop :: "nat list \<Rightarrow> 64 word \<Rightarrow> dump_stats \<Rightarrow> dump_stats" where
  "count_allocation_loop [] sz st = st"
| "count_allocation_loop (i # slots) sz st =
     (if sz \<le> push_bit i 1 then
        st\<lparr>alloc_count := (alloc_count st)(i := alloc_count st i + 1),
           alloc_size := (alloc_size st)(i := alloc_size st i + sz)\<rparr>
      else count_allocation_loop slots sz st)"

definition count_allocation :: "64 word \<Rightarrow> dump_state \<Rightarrow> dump_state" where
  "count_allocation sz s =
     s\<lparr>stats := count_allocation_loop [0..<ALLOC_STAT_SLOTS] sz
                  ((stats s)\<lparr>total_obj_count := total_obj_count (stats s) + 1,
                             total_obj_size := total_obj_size (stats s) + sz\<rparr>)\<rparr>"

text \<open>
  Modelled from the spec: \<^verbatim>\<open>oopDesc::identity_hash\<close> is not under src/. It returns the
  hash of the object header, and an object whose header has none gets the next hash the VM
  hands out, which stays in the header ("identity-hash assignment" of the heap collaborator).
\<close>

definition identity_hash :: "dump_env \<Rightarrow> oop \<Rightarrow> dump_state \<Rightarrow> 32 word \<times> dump_state" where
  "identity_hash env obj s =
     (case mark_hash s obj of
        Some h \<Rightarrow> (h, s)
      | None \<Rightarrow>
          (let h = hash_sequence env (hashes_generated s)
           in (h, s\<lparr>mark_hash := (mark_hash s)(obj \<mapsto> h),
                    hashes_generated := Suc (hashes_generated s)\<rparr>)))"

text \<open>
  \<^verbatim>\<open>copy_java_mirror_hashcode\<close>: the header of the scratch mirror gets the identity hash of
  the original mirror.
\<close>

definition copy_java_mirror_hashcode :: "dump_env \<Rightarrow> oop \<Rightarrow> oop \<Rightarrow> dump_state \<Rightarrow> dump_state" where
  "copy_java_mirror_hashcode env orig_mirror scratch_m s =
     (let (src_hash, s1) = identity_hash env orig_mirror s
      in s1\<lparr>mark_hash := (mark_hash s1)(scratch_m \<mapsto> src_hash)\<rparr>)"

definition make_cached_oop_info :: "dump_state \<Rightarrow> CachedOopInfo" where
  "make_cached_oop_info s = \<lparr>referrer = walker_current s\<rparr>"

definition mark_native_pointers :: "dump_env \<Rightarrow> oop \<Rightarrow> dump_state \<Rightarrow> dump_state" where
  "mark_native_pointers env orig_obj s =
     (if java_lang_Class_is_instance env orig_obj then
        s\<lparr>native_pointers := native_pointers s @ [(orig_obj, klass_offset), (orig_obj, array_klass_offset)]\<rparr>
      else if ResolvedMethodName_is_instance env orig_obj then
        s\<lparr>native_pointers := native_pointers s @ [(orig_obj, vmtarget_offset)]\<rparr>
      else s)"

text \<open>
  \<^verbatim>\<open>HeapShared::archive_object\<close>. \<^verbatim>\<open>ArchiveHeapWriter::add_source_obj\<close> appends the object to
  the list of objects the writer copies into the archive after the walk.
\<close>

definition archive_object :: "dump_env \<Rightarrow> oop \<Rightarrow> dump_state \<Rightarrow> bool \<times> dump_state" where
  "archive_object env obj s =
     (if has_been_archived s obj then (True, s)
      else if is_too_large_to_archive env (obj_size env obj) then (False, s)
      else
        (let s1 = count_allocation (obj_size env obj) s;
             s2 = s1\<lparr>source_objs := source_objs s1 @ [obj]\<rparr>;
             (h, s3) = identity_hash env obj s2;
             info = make_cached_oop_info s3;
             s4 = s3\<lparr>archived_object_cache := AList.update obj info (archived_object_cache s3)\<rparr>;
             s5 = mark_native_pointers env obj s4;
             s6 = (if java_lang_Module_is_instance env obj \<and> check_archived_module_oop env obj then
                     (let (index, s') = append_root (Some obj) s5
                      in s'\<lparr>archived_module_roots := archived_module_roots s' @ [(obj, index)]\<rparr>)
                   else s5)
         in (True, s6)))"

subsection \<open>Class mirrors\<close>

text \<open>
  The values of \<^verbatim>\<open>BasicType\<close> the loops over the primitive types use (the enum is declared
  in \<^verbatim>\<open>globalDefinitions.hpp\<close>, which is not under src/).
\<close>

definition T_BOOLEAN :: nat where "T_BOOLEAN = 4"
definition T_OBJECT :: nat where "T_OBJECT = 12"
definition T_ARRAY :: nat where "T_ARRAY = 13"
definition T_VOID :: nat where "T_VOID = 14"

definition is_reference_type :: "nat \<Rightarrow> bool" where
  "is_reference_type t = (t = T_OBJECT \<or> t = T_ARRAY)"

definition scratch_java_mirror :: "dump_env \<Rightarrow> oop \<Rightarrow> oop option" where
  "scratch_java_mirror env java_mirror =
     (if list_ex (\<lambda>i. \<not> is_reference_type i \<and> scratch_basic_type_mirrors env i = Some java_mirror)
           [T_BOOLEAN..<T_VOID + 1]
      then Some java_mirror
      else if java_lang_Class_is_primitive env java_mirror then
        scratch_basic_type_mirrors env (java_lang_Class_as_BasicType env java_mirror)
      else scratch_java_mirror_table env (java_lang_Class_as_Klass env java_mirror))"

definition can_mirror_be_used_in_subgraph :: "dump_env \<Rightarrow> oop \<Rightarrow> bool" where
  "can_mirror_be_used_in_subgraph env orig_java_mirror =
     (java_lang_Class_is_primitive env orig_java_mirror
      \<or> orig_java_mirror = klass_java_mirror env (vmClasses env Boolean_klass)
      \<or> orig_java_mirror = klass_java_mirror env (vmClasses env Character_klass)
      \<or> orig_java_mirror = klass_java_mirror env (vmClasses env Float_klass)
      \<or> orig_java_mirror = klass_java_mirror env (vmClasses env Double_klass)
      \<or> orig_java_mirror = klass_java_mirror env (vmClasses env Byte_klass)
      \<or> orig_java_mirror = klass_java_mirror env (vmClasses env Short_klass)
      \<or> orig_java_mirror = klass_java_mirror env (vmClasses env Integer_klass)
      \<or> orig_java_mirror = klass_java_mirror env (vmClasses env Long_klass)
      \<or> orig_java_mirror = klass_java_mirror env (vmClasses env Void_klass)
      \<or> orig_java_mirror = klass_java_mirror env (vmClasses env Object_klass))"

subsection \<open>The Subgraph Recorder\<close>

text \<open>
  A \<^verbatim>\<open>KlassSubGraphInfo*\<close> is the key of its entry in the dump-time table; the operations
  on an info that the table does not hold dereference a null pointer.
\<close>

definition check_allowed_klass :: "dump_env \<Rightarrow> klass \<Rightarrow> vm_error + unit" where
  "check_allowed_klass env ik =
     (if ArchiveInvokeDynamic env then Inr ()
      else if module_is_java_base env ik then Inr ()
      else if \<not> PRODUCT env \<and> \<not> module_is_named env ik \<and> package_is_null env ik then Inr ()
      else Inl UnrecoverableWritingError)"

definition is_non_early_klass :: "dump_env \<Rightarrow> klass \<Rightarrow> bool" where
  "is_non_early_klass env k =
     (let k' = (case klass_kind env k of ObjArrayKlass bottom \<Rightarrow> bottom | _ \<Rightarrow> k)
      in (case klass_kind env k' of
            InstanceKlass \<Rightarrow> \<not> is_early_klass env k'
          | _ \<Rightarrow> False))"

definition append_if_missing :: "'a \<Rightarrow> 'a list \<Rightarrow> 'a list" where
  "append_if_missing x xs = (if x \<in> set xs then xs else xs @ [x])"

text \<open>
  \<^verbatim>\<open>KlassSubGraphInfo::add_subgraph_object_klass\<close>, on the info alone. The buffered copy of
  a class has the kind of the class. The result says whether the dump goes on.
\<close>

definition add_subgraph_object_klass :: "dump_env \<Rightarrow> klass \<Rightarrow> KlassSubGraphInfo \<Rightarrow> vm_error + KlassSubGraphInfo" where
  "add_subgraph_object_klass env orig_k info =
     (let buffered_k = get_buffered_klass env orig_k;
          info1 = (case info_subgraph_object_klasses info of
                     None \<Rightarrow> info\<lparr>info_subgraph_object_klasses := Some []\<rparr>
                   | Some ks \<Rightarrow> info);
          add = (\<lambda>i. Inr (i\<lparr>info_subgraph_object_klasses :=
                                Some (append_if_missing buffered_k (the (info_subgraph_object_klasses i))),
                              info_has_non_early_klasses :=
                                (info_has_non_early_klasses i \<or> is_non_early_klass env orig_k)\<rparr>))
      in if info_k info1 = buffered_k then Inr info1
         else
           (case klass_kind env orig_k of
              InstanceKlass \<Rightarrow>
                (if orig_k = vmClasses env String_klass \<or> orig_k = vmClasses env Object_klass then Inr info1
                 else (case check_allowed_klass env orig_k of
                         Inl e \<Rightarrow> Inl e
                       | Inr u \<Rightarrow> add info1))
            | ObjArrayKlass bottom \<Rightarrow>
                (case (if klass_kind env bottom = InstanceKlass then check_allowed_klass env bottom else Inr ()) of
                   Inl e \<Rightarrow> Inl e
                 | Inr u \<Rightarrow>
                     (if buffered_k = objectArrayKlassObj env then Inr info1 else add info1))
            | TypeArrayKlass \<Rightarrow> Inr info1))"

definition add_subgraph_entry_field :: "int \<Rightarrow> oop option \<Rightarrow> klass \<Rightarrow> dump_state \<Rightarrow> vm_error + dump_state" where
  "add_subgraph_entry_field static_field_offset v sg s =
     (case dump_time_subgraph_info_table s sg of
        None \<Rightarrow> Inl NullPointer
      | Some info \<Rightarrow>
          (let fields = (case info_subgraph_entry_fields info of None \<Rightarrow> [] | Some fs \<Rightarrow> fs);
               (index, s1) = append_root v s
           in Inr (s1\<lparr>dump_time_subgraph_info_table :=
                        (dump_time_subgraph_info_table s1)
                          (sg \<mapsto> info\<lparr>info_subgraph_entry_fields := Some (fields @ [static_field_offset, index])\<rparr>)\<rparr>)))"

definition has_been_seen_during_subgraph_recording :: "dump_state \<Rightarrow> oop \<Rightarrow> bool" where
  "has_been_seen_during_subgraph_recording s obj = (obj \<in> seen_objects_table s)"

definition set_has_been_seen_during_subgraph_recording :: "oop \<Rightarrow> dump_state \<Rightarrow> dump_state" where
  "set_has_been_seen_during_subgraph_recording obj s =
     s\<lparr>seen_objects_table := insert obj (seen_objects_table s),
       stats := (stats s)\<lparr>num_new_walked_objs := num_new_walked_objs (stats s) + 1\<rparr>\<rparr>"

subsection \<open>The Graph Walker\<close>

text \<open>
  The part of \<^verbatim>\<open>archive_reachable_objects_from\<close> before the walk over the fields: either
  the call returns (\<open>Return\<close>: the dump aborts, or the boolean result and the state), or
  the fields of the object (the scratch mirror, when the object is a class mirror) are
  walked (\<open>Walk\<close>).
\<close>

datatype walk_step = Return "vm_error + bool \<times> dump_state" | Walk oop dump_state

definition add_subgraph_object_klass_of :: "dump_env \<Rightarrow> klass \<Rightarrow> klass \<Rightarrow> dump_state \<Rightarrow> vm_error + dump_state" where
  "add_subgraph_object_klass_of env sg orig_k s =
     (case dump_time_subgraph_info_table s sg of
        None \<Rightarrow> Inl NullPointer
      | Some info \<Rightarrow>
          (case add_subgraph_object_klass env orig_k info of
             Inl e \<Rightarrow> Inl e
           | Inr info' \<Rightarrow>
               Inr (s\<lparr>dump_time_subgraph_info_table := (dump_time_subgraph_info_table s)(sg \<mapsto> info')\<rparr>)))"

definition archive_reachable_objects_from_enter ::
  "dump_env \<Rightarrow> int \<Rightarrow> klass \<Rightarrow> oop \<Rightarrow> dump_state \<Rightarrow> walk_step" where
  "archive_reachable_objects_from_enter env level sg orig_obj0 s =
     (if \<not> is_supported_for_archiving env orig_obj0 then Return (Inl UnrecoverableWritingError)
      else
        (case (if java_lang_Class_is_instance env orig_obj0 then scratch_java_mirror env orig_obj0
               else Some orig_obj0) of
           None \<Rightarrow> Return (Inl NullPointer)
         | Some orig_obj \<Rightarrow>
             (if has_been_seen_during_subgraph_recording s orig_obj then Return (Inr (True, s))
              else
                (let s1 = set_has_been_seen_during_subgraph_recording orig_obj s;
                     already_archived = has_been_archived s1 orig_obj
                 in (case (if \<not> already_archived then
                             (let s2 = s1\<lparr>stats := (stats s1)\<lparr>num_new_archived_objs :=
                                                        num_new_archived_objs (stats s1) + 1\<rparr>\<rparr>;
                                  (archived, s3) = archive_object env orig_obj s2
                              in if \<not> archived then
                                   (if level = 1 then Inl (Inr (False, s3))
                                    else Inl (Inl UnrecoverableWritingError))
                                 else Inr s3)
                           else Inr s1) of
                       Inl r \<Rightarrow> Return r
                     | Inr s4 \<Rightarrow>
                         (case add_subgraph_object_klass_of env sg (obj_klass env orig_obj) s4 of
                            Inl e \<Rightarrow> Return (Inl e)
                          | Inr s5 \<Rightarrow> Walk orig_obj s5))))))"

text \<open>
  \<^verbatim>\<open>archive_reachable_objects_from\<close> and the walk of \<^verbatim>\<open>WalkOopAndArchiveClosure\<close> over the
  reference fields of an object (\<open>oop_iterate\<close>; \<^verbatim>\<open>do_oop_work\<close> skips a null field and calls
  the walker at \<open>_level + 1\<close> on any other). The recursion of the source is not structural;
  the first argument bounds its depth, and \<open>None\<close> says that the bound was reached. The
  closure is \<^verbatim>\<open>_current\<close> from its construction to the return of the function.

  Modelled from the spec: \<^verbatim>\<open>CDSEnumKlass::handle_enum_obj\<close> is not under src/. For an object of
  an enum-like type the walker "additionally processes its synthetic constant-table
  references", at \<open>level + 1\<close>.
\<close>

fun archive_reachable_objects_from ::
    "nat \<Rightarrow> dump_env \<Rightarrow> int \<Rightarrow> klass \<Rightarrow> oop \<Rightarrow> dump_state \<Rightarrow> (vm_error + bool \<times> dump_state) option"
  and oop_iterate ::
    "nat \<Rightarrow> dump_env \<Rightarrow> int \<Rightarrow> klass \<Rightarrow> oop option list \<Rightarrow> dump_state \<Rightarrow> (vm_error + dump_state) option" where
  "archive_reachable_objects_from 0 env level sg orig_obj s = None"
| "archive_reachable_objects_from (Suc n) env level sg orig_obj s =
     (case archive_reachable_objects_from_enter env level sg orig_obj s of
        Return r \<Rightarrow> Some r
      | Walk obj s1 \<Rightarrow>
          (case oop_iterate n env level sg (obj_oop_fields env obj) (s1\<lparr>walker_current := Some obj\<rparr>) of
             None \<Rightarrow> None
           | Some (Inl e) \<Rightarrow> Some (Inl e)
           | Some (Inr s2) \<Rightarrow>
               (case (if is_enum_obj env obj
                      then oop_iterate n env level sg (map Some (enum_constant_refs env obj)) s2
                      else Some (Inr s2)) of
                  None \<Rightarrow> None
                | Some (Inl e) \<Rightarrow> Some (Inl e)
                | Some (Inr s3) \<Rightarrow> Some (Inr (True, s3\<lparr>walker_current := walker_current s1\<rparr>)))))"
| "oop_iterate n env level sg [] s = Some (Inr s)"
| "oop_iterate n env level sg (None # ps) s = oop_iterate n env level sg ps s"
| "oop_iterate n env level sg (Some obj # ps) s =
     (case archive_reachable_objects_from n env (level + 1) sg obj s of
        None \<Rightarrow> None
      | Some (Inl e) \<Rightarrow> Some (Inl e)
      | Some (Inr (success, s')) \<Rightarrow> oop_iterate n env level sg ps s')"

text \<open>
  \<^verbatim>\<open>archive_reachable_objects_from_static_field\<close>: the entry field is recorded when the field
  is null and when the walk from its value succeeds.
\<close>

definition archive_reachable_objects_from_static_field ::
  "nat \<Rightarrow> dump_env \<Rightarrow> klass \<Rightarrow> int \<Rightarrow> dump_state \<Rightarrow> (vm_error + dump_state) option" where
  "archive_reachable_objects_from_static_field n env k field_offset s =
     (case mirror_obj_field env k field_offset of
        Some f \<Rightarrow>
          (case archive_reachable_objects_from n env 1 k f s of
             None \<Rightarrow> None
           | Some (Inl e) \<Rightarrow> Some (Inl e)
           | Some (Inr (success, s')) \<Rightarrow>
               (if \<not> success then Some (Inr s')
                else Some (add_subgraph_entry_field field_offset (Some f) k s')))
      | None \<Rightarrow> Some (add_subgraph_entry_field field_offset None k s))"

text \<open>
  \<^verbatim>\<open>init_subgraph_info\<close> (\<^verbatim>\<open>put_if_absent\<close> of a fresh info), \<^verbatim>\<open>start_recording_subgraph\<close> and
  \<^verbatim>\<open>done_recording_subgraph\<close>.
\<close>

definition init_subgraph_info :: "dump_env \<Rightarrow> klass \<Rightarrow> bool \<Rightarrow> dump_state \<Rightarrow> dump_state" where
  "init_subgraph_info env k is_full_module_graph s =
     (case dump_time_subgraph_info_table s k of
        Some info \<Rightarrow> s
      | None \<Rightarrow>
          s\<lparr>dump_time_subgraph_info_table := (dump_time_subgraph_info_table s)
               (k \<mapsto> \<lparr>info_k = get_buffered_klass env k,
                       info_subgraph_object_klasses = None,
                       info_subgraph_entry_fields = None,
                       info_is_full_module_graph = is_full_module_graph,
                       info_has_non_early_klasses = False\<rparr>)\<rparr>)"

definition num_subgraph_object_klasses :: "dump_state \<Rightarrow> klass \<Rightarrow> 32 word" where
  "num_subgraph_object_klasses s k =
     (case dump_time_subgraph_info_table s k of
        None \<Rightarrow> 0
      | Some info \<Rightarrow> (case info_subgraph_object_klasses info of None \<Rightarrow> 0 | Some ks \<Rightarrow> of_nat (length ks)))"

definition start_recording_subgraph :: "dump_env \<Rightarrow> klass \<Rightarrow> bool \<Rightarrow> dump_state \<Rightarrow> dump_state" where
  "start_recording_subgraph env k is_full_module_graph s =
     (let s1 = init_subgraph_info env k is_full_module_graph s;
          s2 = s1\<lparr>seen_objects_table := {}\<rparr>
      in s2\<lparr>stats := (stats s2)\<lparr>num_new_walked_objs := 0, num_new_archived_objs := 0,
                                 num_old_recorded_klasses := num_subgraph_object_klasses s2 k\<rparr>\<rparr>)"

definition done_recording_subgraph :: "klass \<Rightarrow> dump_state \<Rightarrow> dump_state" where
  "done_recording_subgraph k s =
     (let num_new_recorded_klasses = num_subgraph_object_klasses s k - num_old_recorded_klasses (stats s);
          st = stats s
      in s\<lparr>seen_objects_table := {},
           stats := st\<lparr>num_total_subgraph_recordings := num_total_subgraph_recordings st + 1,
                       num_total_walked_objs := num_total_walked_objs st + num_new_walked_objs st,
                       num_total_archived_objs := num_total_archived_objs st + num_new_archived_objs st,
                       num_total_recorded_klasses := num_total_recorded_klasses st + num_new_recorded_klasses\<rparr>\<rparr>)"

text \<open>
  An entry of the table of entry points (\<^verbatim>\<open>ArchivableStaticFieldInfo\<close>, after
  \<^verbatim>\<open>init_subgraph_entry_fields\<close> has filled in the class and the offset). The table is the
  list of its valid entries. The source compares the addresses of the class names
  (\<^verbatim>\<open>const char*\<close>); the model compares their text, so two entries whose names have the same
  text at different addresses are consecutive fields of one class here.
\<close>

record ArchivableStaticFieldInfo =
  klass_name :: string
  field_name :: string
  klass :: klass
  offset :: int

text \<open>
  The inner loop of \<^verbatim>\<open>archive_object_subgraphs\<close>: the consecutive fields of one class; the
  result holds the fields that are left.
\<close>

fun archive_fields_of_klass ::
  "nat \<Rightarrow> dump_env \<Rightarrow> string \<Rightarrow> ArchivableStaticFieldInfo list \<Rightarrow> dump_state
     \<Rightarrow> (vm_error + ArchivableStaticFieldInfo list \<times> dump_state) option" where
  "archive_fields_of_klass n env name [] s = Some (Inr ([], s))"
| "archive_fields_of_klass n env name (f # fs) s =
     (if klass_name f \<noteq> name then Some (Inr (f # fs, s))
      else
        (case archive_reachable_objects_from_static_field n env (klass f) (offset f) s of
           None \<Rightarrow> None
         | Some (Inl e) \<Rightarrow> Some (Inl e)
         | Some (Inr s') \<Rightarrow> archive_fields_of_klass n env name fs s'))"

lemma archive_fields_of_klass_length:
  "archive_fields_of_klass n env name fs s = Some (Inr (rest, s')) \<Longrightarrow> length rest \<le> length fs"
  by (induction fs arbitrary: s) (auto split: if_splits option.splits sum.splits intro: le_SucI)

function archive_object_subgraphs_loop ::
  "nat \<Rightarrow> dump_env \<Rightarrow> bool \<Rightarrow> ArchivableStaticFieldInfo list \<Rightarrow> dump_state \<Rightarrow> (vm_error + dump_state) option" where
  "archive_object_subgraphs_loop n env is_full_module_graph [] s = Some (Inr s)"
| "archive_object_subgraphs_loop n env is_full_module_graph (info # fs) s =
     (let s1 = start_recording_subgraph env (klass info) is_full_module_graph s
      in (case archive_fields_of_klass n env (klass_name info) (info # fs) s1 of
            None \<Rightarrow> None
          | Some (Inl e) \<Rightarrow> Some (Inl e)
          | Some (Inr (rest, s2)) \<Rightarrow>
              archive_object_subgraphs_loop n env is_full_module_graph rest
                (done_recording_subgraph (klass info) s2)))"
  by pat_completeness auto
termination
proof (relation "measure (\<lambda>(n, env, fmg, fs, s). length fs)")
  show "wf (measure (\<lambda>(n, env, fmg, fs, s). length fs))" by simp
next
  fix n env is_full_module_graph info fs s s1 x2 b x y
  assume s1: "s1 = start_recording_subgraph env (klass info) is_full_module_graph s"
    and r: "archive_fields_of_klass n env (klass_name info) (info # fs) s1 = Some x2"
      "x2 = Inr b" "(x, y) = b"
  from r have "archive_fields_of_klass n env (klass_name info) (info # fs) s1 = Some (Inr (x, y))"
    by simp
  then have "length x \<le> length fs"
    by (auto split: option.splits sum.splits dest: archive_fields_of_klass_length)
  then show "((n, env, is_full_module_graph, x, done_recording_subgraph (klass info) y),
              (n, env, is_full_module_graph, info # fs, s))
             \<in> measure (\<lambda>(n, env, fmg, fs, s). length fs)"
    by simp
qed

definition archive_object_subgraphs ::
  "nat \<Rightarrow> dump_env \<Rightarrow> ArchivableStaticFieldInfo list \<Rightarrow> bool \<Rightarrow> dump_state \<Rightarrow> (vm_error + dump_state) option" where
  "archive_object_subgraphs n env fs is_full_module_graph s =
     archive_object_subgraphs_loop n env is_full_module_graph fs
       (s\<lparr>stats := (stats s)\<lparr>num_total_subgraph_recordings := 0, num_total_walked_objs := 0,
                              num_total_archived_objs := 0, num_total_recorded_klasses := 0,
                              num_total_verifications := 0\<rparr>\<rparr>)"

subsection \<open>Notions used to state the restoration theorems\<close>

text \<open>The entry field array of a record, empty when the record has none.\<close>

definition record_entry_fields :: "ArchivedKlassSubGraphInfoRecord \<Rightarrow> int list" where
  "record_entry_fields r = (case rec_entry_field_records r of None \<Rightarrow> [] | Some efr \<Rightarrow> efr)"

text \<open>The root array after the slots of the given indices have been set to null.\<close>

definition clear_all :: "int list \<Rightarrow> oop option list \<Rightarrow> oop option list" where
  "clear_all is r = fold (\<lambda>i a. a[nat i := None]) is r"

text \<open>
  Setting the flag that \<^verbatim>\<open>JvmtiExport::should_post_class_file_load_hook()\<close> reads, in a state
  and in the state of a result.
\<close>

definition set_hook :: "bool \<Rightarrow> runtime_state \<Rightarrow> runtime_state" where
  "set_hook h s = s\<lparr>should_post_class_file_load_hook := h\<rparr>"

definition with_hook :: "bool \<Rightarrow> vm_error + ('a \<times> runtime_state) \<Rightarrow> vm_error + ('a \<times> runtime_state)" where
  "with_hook h res = (case res of Inl e \<Rightarrow> Inl e | Inr (x, s) \<Rightarrow> Inr (x, set_hook h s))"

subsection \<open>Notions used to state the dump-time theorems\<close>

text \<open>
  The object the walker works on: the scratch mirror for a class mirror, the object itself
  otherwise; \<open>None\<close> when a class mirror has no scratch mirror.
\<close>

definition mirror_substitute :: "dump_env \<Rightarrow> oop \<Rightarrow> oop option" where
  "mirror_substitute env obj =
     (if java_lang_Class_is_instance env obj then scratch_java_mirror env obj else Some obj)"

text \<open>
  The state after the walker has marked a new object as seen and, unless the Identity Cache
  has it, called \<open>archive_object\<close> on it.
\<close>

definition entered :: "dump_env \<Rightarrow> oop \<Rightarrow> dump_state \<Rightarrow> dump_state" where
  "entered env obj s =
     (let s1 = set_has_been_seen_during_subgraph_recording obj s
      in if has_been_archived s1 obj then s1
         else snd (archive_object env obj
                (s1\<lparr>stats := (stats s1)\<lparr>num_new_archived_objs := num_new_archived_objs (stats s1) + 1\<rparr>\<rparr>)))"

text \<open>A property of dump states that every step of the walker keeps.\<close>

definition walker_preserves :: "dump_env \<Rightarrow> klass \<Rightarrow> (dump_state \<Rightarrow> bool) \<Rightarrow> bool" where
  "walker_preserves env sg P =
     ((\<forall>level obj s b s'. P s \<longrightarrow>
          archive_reachable_objects_from_enter env level sg obj s = Return (Inr (b, s')) \<longrightarrow> P s')
    \<and> (\<forall>level obj s obj' s'. P s \<longrightarrow>
          archive_reachable_objects_from_enter env level sg obj s = Walk obj' s' \<longrightarrow> P s')
    \<and> (\<forall>s w. P s \<longrightarrow> P (s\<lparr>walker_current := w\<rparr>)))"

text \<open>
  The objects the walker is called on from an object: its non-null reference fields and,
  for an enum object, its constant table, each after the substitution of class mirrors.
  \<open>reachable_from\<close> is the closure.
\<close>

definition successors :: "dump_env \<Rightarrow> oop \<Rightarrow> oop set" where
  "successors env obj =
     {r'. \<exists>r. (Some r \<in> set (obj_oop_fields env obj)
                \<or> (is_enum_obj env obj \<and> r \<in> set (enum_constant_refs env obj)))
              \<and> mirror_substitute env r = Some r'}"

definition reachable_from :: "dump_env \<Rightarrow> oop \<Rightarrow> oop set" where
  "reachable_from env obj = {(x, y). y \<in> successors env x}\<^sup>* `` {obj}"

text \<open>
  Every object that was marked as seen between two states is in the Identity Cache and all
  its successors are marked as seen.
\<close>

definition newly_closed :: "dump_env \<Rightarrow> dump_state \<Rightarrow> dump_state \<Rightarrow> bool" where
  "newly_closed env s s' =
     (\<forall>x\<in>seen_objects_table s' - seen_objects_table s.
        has_been_archived s' x \<and> successors env x \<subseteq> seen_objects_table s')"

text \<open>
  The session is closed: every object marked as seen is in the Identity Cache and all its
  successors are marked as seen. A session starts closed, and stays closed unless a root
  that is too large is given up at level 1.
\<close>

definition session_closed :: "dump_env \<Rightarrow> dump_state \<Rightarrow> bool" where
  "session_closed env s =
     (\<forall>x\<in>seen_objects_table s. has_been_archived s x \<and> successors env x \<subseteq> seen_objects_table s)"

text \<open>
  No object was handed twice to the writer, and every object handed to the writer is in
  the Identity Cache.
\<close>

definition copied_once :: "dump_state \<Rightarrow> bool" where
  "copied_once s = (distinct (source_objs s) \<and> set (source_objs s) \<subseteq> fst ` set (archived_object_cache s))"



text \<open>The boolean a call of the walker returned, and the state it left.\<close>

definition returned :: "(vm_error + bool \<times> dump_state) option \<Rightarrow> bool option" where
  "returned r = (case r of Some (Inr (b, s)) \<Rightarrow> Some b | _ \<Rightarrow> None)"

definition state_after :: "(vm_error + bool \<times> dump_state) option \<Rightarrow> dump_state option" where
  "state_after r = (case r of Some (Inr (b, s)) \<Rightarrow> Some s | _ \<Rightarrow> None)"

text \<open>The state a call of the recorder left, and the entry fields of a holder in a state.\<close>

definition completed :: "(vm_error + dump_state) option \<Rightarrow> dump_state option" where
  "completed r = (case r of Some (Inr s) \<Rightarrow> Some s | _ \<Rightarrow> None)"

definition entry_fields_of :: "klass \<Rightarrow> dump_state \<Rightarrow> int list" where
  "entry_fields_of k s =
     (case dump_time_subgraph_info_table s k of
        None \<Rightarrow> []
      | Some info \<Rightarrow> (case info_subgraph_entry_fields info of None \<Rightarrow> [] | Some fs \<Rightarrow> fs))"

subsection \<open>Example run-time states\<close>

text \<open>
  A holder class 7 with two entry fields (offsets 112 and 116, roots 0 and 2) whose record
  has non-early classes, in a VM where the ClassFileLoadHook is enabled.
\<close>

definition example_record :: ArchivedKlassSubGraphInfoRecord where
  "example_record =
     \<lparr>rec_k = 7, rec_entry_field_records = Some [112, 0, 116, 2],
      rec_subgraph_object_klasses = Some [8],
      rec_is_full_module_graph = False, rec_has_non_early_klasses = True\<rparr>"

definition example_runtime :: runtime_state where
  "example_runtime =
     \<lparr>roots = [Some 10, Some 11, Some 12],
      heap_obj_arrays = Map.empty,
      mirror_static_fields = (\<lambda>k. Map.empty),
      ArchiveHeapLoader_is_in_use = True,
      is_loading_full_module_graph = True,
      should_post_class_file_load_hook = True,
      run_time_subgraph_info_table = [7 \<mapsto> example_record],
      is_shared = (\<lambda>k. True),
      rt_klass_kind = (\<lambda>k. InstanceKlass),
      klass_is_MethodType = (\<lambda>k. False),
      MethodType_field_offsets = (0, 0),
      class_loader_data_set = {},
      initialized_klasses = {},
      resolve_or_null = (\<lambda>k. Resolved),
      initialize_throws = (\<lambda>k. False),
      pending_exception = False,
      permobj_segments = 0,
      permanent_index_table = None,
      PERMOBJ_SEGMENT_MAX_SHIFT = 2\<rparr>"

text \<open>
  A dump-time info of a full-module-graph holder that recorded non-early classes, and a VM
  whose table holds its frozen record.
\<close>

definition fmg_info :: KlassSubGraphInfo where
  "fmg_info =
     \<lparr>info_k = 7, info_subgraph_object_klasses = Some [8],
      info_subgraph_entry_fields = Some [112, 0],
      info_is_full_module_graph = True, info_has_non_early_klasses = True\<rparr>"

definition fmg_runtime :: runtime_state where
  "fmg_runtime =
     example_runtime\<lparr>run_time_subgraph_info_table := [7 \<mapsto> ArchivedKlassSubGraphInfoRecord_init fmg_info]\<rparr>"

subsection \<open>An example heap at dump time\<close>

text \<open>
  Objects 1 and 2 reference each other; object 3 is too large to archive; object 4
  references the live mirror 5 of class 30, whose scratch mirror is 6. Class 30 is not a
  box class and the mirror is not primitive. The holder class 7 has the static fields 112
  (object 1), 116 (null), 120 (object 3) and 124 (object 4).
\<close>

definition example_vmClasses :: "vm_class \<Rightarrow> klass" where
  "example_vmClasses c =
     (case c of
        Boolean_klass \<Rightarrow> 40 | Character_klass \<Rightarrow> 41 | Float_klass \<Rightarrow> 42 | Double_klass \<Rightarrow> 43
      | Byte_klass \<Rightarrow> 44 | Short_klass \<Rightarrow> 45 | Integer_klass \<Rightarrow> 46 | Long_klass \<Rightarrow> 47
      | Void_klass \<Rightarrow> 48 | Object_klass \<Rightarrow> 10 | String_klass \<Rightarrow> 11)"

definition example_env :: dump_env where
  "example_env =
     \<lparr>obj_klass = (\<lambda>obj. 20 + obj),
      obj_size = (\<lambda>obj. if obj = 3 then 1000 else 2),
      obj_oop_fields = (\<lambda>obj. if obj = 1 then [Some 2] else if obj = 2 then [Some 1, None]
                               else if obj = 4 then [Some 5] else []),
      is_enum_obj = (\<lambda>obj. False),
      enum_constant_refs = (\<lambda>obj. []),
      java_lang_Class_is_instance = (\<lambda>obj. obj = 5 \<or> obj = 6),
      java_lang_Class_is_primitive = (\<lambda>obj. False),
      java_lang_Class_as_BasicType = (\<lambda>obj. 0),
      java_lang_Class_as_Klass = (\<lambda>obj. 30),
      java_lang_Module_is_instance = (\<lambda>obj. False),
      ResolvedMethodName_is_instance = (\<lambda>obj. False),
      check_archived_module_oop = (\<lambda>obj. False),
      is_supported_for_archiving = (\<lambda>obj. True),
      is_too_large_to_archive = (\<lambda>sz. 100 < sz),
      scratch_basic_type_mirrors = (\<lambda>t. None),
      scratch_java_mirror_table = [30 \<mapsto> 6],
      hash_sequence = (\<lambda>n. 1000 + of_nat n),
      klass_kind = (\<lambda>k. InstanceKlass),
      get_buffered_klass = (\<lambda>k. k),
      klass_java_mirror = (\<lambda>k. if k = 30 then 5 else 100 + k),
      vmClasses = example_vmClasses,
      objectArrayKlassObj = 13,
      module_is_java_base = (\<lambda>k. True),
      module_is_named = (\<lambda>k. True),
      package_is_null = (\<lambda>k. False),
      is_early_klass = (\<lambda>k. True),
      mirror_obj_field = (\<lambda>k off. if k = 7 \<and> off = 112 then Some 1
                                   else if k = 7 \<and> off = 120 then Some 3
                                   else if k = 7 \<and> off = 124 then Some 4 else None),
      ArchiveInvokeDynamic = False,
      PRODUCT = True\<rparr>"

definition example_stats :: dump_stats where
  "example_stats =
     \<lparr>total_obj_count = 0, total_obj_size = 0, alloc_count = (\<lambda>i. 0), alloc_size = (\<lambda>i. 0),
      num_new_walked_objs = 0, num_new_archived_objs = 0, num_old_recorded_klasses = 0,
      num_total_subgraph_recordings = 0, num_total_walked_objs = 0, num_total_archived_objs = 0,
      num_total_recorded_klasses = 0, num_total_verifications = 0\<rparr>"

definition example_info :: KlassSubGraphInfo where
  "example_info =
     \<lparr>info_k = 7, info_subgraph_object_klasses = None, info_subgraph_entry_fields = None,
      info_is_full_module_graph = False, info_has_non_early_klasses = False\<rparr>"

text \<open>The state at the start of a session for the holder 7, and the state before it.\<close>

definition example_dump :: dump_state where
  "example_dump =
     \<lparr>archived_object_cache = [], seen_objects_table = {}, pending_roots = [], source_objs = [],
      native_pointers = [], archived_module_roots = [], mark_hash = Map.empty,
      hashes_generated = 0, dump_time_subgraph_info_table = [7 \<mapsto> example_info],
      walker_current = None, stats = example_stats\<rparr>"

definition example_dump0 :: dump_state where
  "example_dump0 = example_dump\<lparr>dump_time_subgraph_info_table := Map.empty\<rparr>"

text \<open>
  Segment \<open>i\<close> of the permanent objects: the array that the root \<open>i\<close> places after the
  first segment root holds. The tail of the root array is well formed when it consists of
  the declared number of object arrays, none longer than \<open>2 ^ SHIFT\<close>, and every index fits
  an \<^verbatim>\<open>int\<close>.
\<close>

definition permobj_segment :: "runtime_state \<Rightarrow> nat \<Rightarrow> oop option list" where
  "permobj_segment s i =
     (case roots s ! (length (roots s) - nat (permobj_segments s) + i) of
        None \<Rightarrow> []
      | Some a \<Rightarrow> (case heap_obj_arrays s a of None \<Rightarrow> [] | Some elems \<Rightarrow> elems))"

definition permobj_tail_wf :: "runtime_state \<Rightarrow> bool" where
  "permobj_tail_wf s =
     (0 < permobj_segments s \<and> nat (permobj_segments s) \<le> length (roots s)
      \<and> (\<forall>i<nat (permobj_segments s).
            \<exists>a elems. roots s ! (length (roots s) - nat (permobj_segments s) + i) = Some a
              \<and> heap_obj_arrays s a = Some elems
              \<and> length elems \<le> 2 ^ PERMOBJ_SEGMENT_MAX_SHIFT s)
      \<and> nat (permobj_segments s) * 2 ^ PERMOBJ_SEGMENT_MAX_SHIFT s \<le> 2 ^ 31)"

text \<open>The index of position \<open>p\<close> of segment \<open>i\<close>, as the loop computes it.\<close>

definition encode :: "nat \<Rightarrow> nat \<Rightarrow> nat \<Rightarrow> int" where
  "encode shift i p = int32 (int32 (push_bit shift (int i)) + int p)"

text \<open>
  A root array whose last two roots are the segments \<open>[20, 21, 22, 23]\<close> and \<open>[24, 21]\<close>, with
  \<open>SHIFT = 2\<close>.
\<close>

definition permobj_runtime :: runtime_state where
  "permobj_runtime =
     example_runtime\<lparr>roots := [Some 10, Some 11, Some 12],
                     heap_obj_arrays := [11 \<mapsto> [Some 20, Some 21, Some 22, Some 23],
                                         12 \<mapsto> [Some 24, Some 21]],
                     permobj_segments := 2\<rparr>"

section \<open>Theorems\<close>

text \<open>
  C6. For every valid index \<open>i\<close> of a loaded root table, \<open>get_root i True\<close> returns the value the
  slot held, and a following \<open>get_root i False\<close> returns null.
\<close>

theorem get_root_clear_then_null:
  assumes "ArchiveHeapLoader_is_in_use s" and "0 \<le> i" and "i < int (length (roots s))"
  shows "get_root i True s = Inr (roots s ! nat i, s\<lparr>roots := (roots s)[nat i := None]\<rparr>)
       \<and> get_root i False (s\<lparr>roots := (roots s)[nat i := None]\<rparr>)
           = Inr (None, s\<lparr>roots := (roots s)[nat i := None]\<rparr>)"
  using assms by (simp add: get_root_def clear_root_def obj_at_def obj_at_put_def)

theorem get_root_clear_then_null_witness:
  "get_root 1 True example_runtime = Inr (Some 11, example_runtime\<lparr>roots := [Some 10, None, Some 12]\<rparr>)
   \<and> get_root 1 False (example_runtime\<lparr>roots := [Some 10, None, Some 12]\<rparr>)
       = Inr (None, example_runtime\<lparr>roots := [Some 10, None, Some 12]\<rparr>)"
  using get_root_clear_then_null [of example_runtime 1]
  by (simp add: example_runtime_def)

subsection \<open>Restoration: clearing the roots of a rejected record\<close>

lemma length_clear_all [simp]: "length (clear_all is r) = length r"
  unfolding clear_all_def by (induction "is" arbitrary: r) auto

lemma clear_all_keeps_None:
  "j < length r \<Longrightarrow> r ! j = None \<Longrightarrow> clear_all is r ! j = None"
proof (induction "is" arbitrary: r)
  case Nil
  then show ?case by (simp add: clear_all_def)
next
  case (Cons a "is")
  have "r[nat a := None] ! j = None"
    using Cons.prems by (cases "nat a < length r") (simp_all add: nth_list_update)
  then have "clear_all is (r[nat a := None]) ! j = None"
    using Cons.prems by (intro Cons.IH) simp_all
  then show ?case by (simp add: clear_all_def)
qed

lemma clear_all_clears:
  "i \<in> set is \<Longrightarrow> 0 \<le> i \<Longrightarrow> i < int (length r) \<Longrightarrow> clear_all is r ! nat i = None"
proof (induction "is" arbitrary: r)
  case Nil
  then show ?case by simp
next
  case (Cons a "is")
  show ?case
  proof (cases "i = a")
    case True
    have "clear_all is (r[nat a := None]) ! nat a = None"
      using Cons.prems True by (intro clear_all_keeps_None) auto
    then show ?thesis using True by (simp add: clear_all_def)
  next
    case False
    then have "clear_all is (r[nat a := None]) ! nat i = None"
      using Cons.prems by (intro Cons.IH) auto
    then show ?thesis by (simp add: clear_all_def)
  qed
qed

lemma clear_entry_roots_ok:
  "ArchiveHeapLoader_is_in_use s \<Longrightarrow> even (length efr) \<Longrightarrow>
   \<forall>i\<in>set (entry_root_indices efr). 0 \<le> i \<and> i < int (length (roots s)) \<Longrightarrow>
   clear_entry_roots efr s = Inr (s\<lparr>roots := clear_all (entry_root_indices efr) (roots s)\<rparr>)"
proof (induction efr s rule: clear_entry_roots.induct)
  case (1 s)
  then show ?case by (simp add: clear_all_def)
next
  case (2 field_offset s)
  then show ?case by simp
next
  case (3 field_offset root_index rest s)
  let ?s' = "s\<lparr>roots := (roots s)[nat root_index := None]\<rparr>"
  have c: "clear_root root_index s = Inr ?s'"
    using 3(2,4) by (simp add: clear_root_def obj_at_put_def)
  have "clear_entry_roots rest ?s' = Inr (?s'\<lparr>roots := clear_all (entry_root_indices rest) (roots ?s')\<rparr>)"
    using 3(2,3,4) by (intro 3(1)[OF c]) auto
  then show ?case using c by (simp add: clear_all_def)
qed

text \<open>
  C1. A record whose \<open>has_non_early_klasses\<close> flag is set while the ClassFileLoadHook is enabled,
  or whose \<open>is_full_module_graph\<close> flag is set while the full module graph is not loaded, is
  rejected: \<open>resolve_or_init_classes_for_subgraph_of\<close> returns no record and leaves the state as
  it was; the resolve phase (\<open>resolve_classes_for_subgraph_of\<close>) then changes nothing but the root
  array, where the root of every entry of the record is null afterwards; and
  \<open>initialize_from_archived_subgraph\<close> leaves the state, so the static fields of the holder, as
  they were.
\<close>

theorem restore_rejected:
  assumes rec: "run_time_subgraph_info_table s k = Some r"
    and gate: "(rec_has_non_early_klasses r \<and> should_post_class_file_load_hook s)
             \<or> (rec_is_full_module_graph r \<and> \<not> is_loading_full_module_graph s)"
    and use: "ArchiveHeapLoader_is_in_use s"
    and nopend: "\<not> pending_exception s"
    and ev: "even (length (record_entry_fields r))"
    and valid: "\<forall>i\<in>set (entry_root_indices (record_entry_fields r)). 0 \<le> i \<and> i < int (length (roots s))"
  shows "resolve_or_init_classes_for_subgraph_of k do_init s = Inr (None, s)
       \<and> resolve_classes_for_subgraph_of k s
           = Inr (s\<lparr>roots := clear_all (entry_root_indices (record_entry_fields r)) (roots s)\<rparr>)
       \<and> (\<forall>i\<in>set (entry_root_indices (record_entry_fields r)).
             clear_all (entry_root_indices (record_entry_fields r)) (roots s) ! nat i = None)
       \<and> initialize_from_archived_subgraph k s = Inr s"
proof -
  have a: "resolve_or_init_classes_for_subgraph_of k do_init s = Inr (None, s)" for do_init
    using rec gate by (auto simp: resolve_or_init_classes_for_subgraph_of_def)
  have b: "clear_archived_roots_of k s
             = Inr (s\<lparr>roots := clear_all (entry_root_indices (record_entry_fields r)) (roots s)\<rparr>)"
  proof (cases "rec_entry_field_records r")
    case None
    then show ?thesis using rec
      by (simp add: clear_archived_roots_of_def record_entry_fields_def clear_all_def)
  next
    case (Some efr)
    then show ?thesis using rec clear_entry_roots_ok[OF use, of efr] ev valid
      by (simp add: clear_archived_roots_of_def record_entry_fields_def)
  qed
  have c: "resolve_classes_for_subgraph_of k s
           = Inr (s\<lparr>roots := clear_all (entry_root_indices (record_entry_fields r)) (roots s)\<rparr>)"
    using a[of False] b nopend by (simp add: resolve_classes_for_subgraph_of_def)
  have d: "initialize_from_archived_subgraph k s = Inr s"
    using a[of True] nopend use by (simp add: initialize_from_archived_subgraph_def)
  show ?thesis using a b c d valid by (auto intro: clear_all_clears)
qed

theorem restore_rejected_witness:
  "resolve_or_init_classes_for_subgraph_of 7 True example_runtime = Inr (None, example_runtime)
   \<and> resolve_classes_for_subgraph_of 7 example_runtime
       = Inr (example_runtime\<lparr>roots := [None, Some 11, None]\<rparr>)
   \<and> initialize_from_archived_subgraph 7 example_runtime = Inr example_runtime"
  using restore_rejected [of example_runtime 7 example_record True]
  by (simp add: example_runtime_def example_record_def record_entry_fields_def clear_all_def)

subsection \<open>Full-module-graph records and the ClassFileLoadHook gate\<close>

lemma get_root_set_hook:
  "get_root i False (set_hook h s) = with_hook h (get_root i False s)"
  by (simp add: get_root_def set_hook_def with_hook_def split: sum.splits)

lemma obj_field_put_set_hook:
  "obj_field_put k off v (set_hook h s) = set_hook h (obj_field_put k off v s)"
  by (simp add: obj_field_put_def set_hook_def)

lemma preseed_MethodType_set_hook:
  "preseed_MethodType k r (set_hook h s)
     = (case preseed_MethodType k r s of Inl e \<Rightarrow> Inl e | Inr s' \<Rightarrow> Inr (set_hook h s'))"
  unfolding preseed_MethodType_def get_root_set_hook
  by (auto simp: with_hook_def obj_field_put_set_hook split: sum.splits option.splits prod.splits)
     (simp_all add: set_hook_def)

lemma resolve_or_init_set_hook:
  "resolve_or_init k d (set_hook h s) = set_hook h (resolve_or_init k d s)"
  by (simp add: resolve_or_init_def set_hook_def split: resolve_result.splits klass_kind.splits)

lemma pending_set_hook [simp]: "pending_exception (set_hook h s) = pending_exception s"
  by (simp add: set_hook_def)

lemma is_shared_set_hook [simp]: "is_shared (set_hook h s) = is_shared s"
  by (simp add: set_hook_def)

lemma resolve_or_init_klasses_set_hook:
  "resolve_or_init_klasses ks d (set_hook h s)
     = (case resolve_or_init_klasses ks d s of (b, s') \<Rightarrow> (b, set_hook h s'))"
  by (induction ks d s rule: resolve_or_init_klasses.induct)
     (simp_all add: resolve_or_init_set_hook Let_def)

lemma set_hook_twice [simp]: "set_hook h (set_hook h' s) = set_hook h s"
  by (simp add: set_hook_def)

text \<open>
  C10. A record frozen from an info with \<open>is_full_module_graph\<close> has \<open>has_non_early_klasses = False\<close>,
  whatever the info recorded. So the value of the ClassFileLoadHook flag has no influence on
  what \<open>resolve_or_init_classes_for_subgraph_of\<close> does with such a record, and the record is
  rejected whenever the full module graph is not loaded.
\<close>

theorem full_module_graph_record_ignores_hook:
  assumes fmg: "info_is_full_module_graph info"
    and rec: "run_time_subgraph_info_table s k = Some (ArchivedKlassSubGraphInfoRecord_init info)"
  shows "\<not> rec_has_non_early_klasses (ArchivedKlassSubGraphInfoRecord_init info)
       \<and> resolve_or_init_classes_for_subgraph_of k do_init (set_hook True s)
           = with_hook True (resolve_or_init_classes_for_subgraph_of k do_init (set_hook False s))
       \<and> (\<not> is_loading_full_module_graph s \<longrightarrow>
             resolve_or_init_classes_for_subgraph_of k do_init s = Inr (None, s))"
proof -
  let ?r = "ArchivedKlassSubGraphInfoRecord_init info"
  have a: "\<not> rec_has_non_early_klasses ?r" and a': "rec_is_full_module_graph ?r"
    using fmg by (simp_all add: ArchivedKlassSubGraphInfoRecord_init_def)
  have gen: "resolve_or_init_classes_for_subgraph_of k do_init (set_hook h s)
           = with_hook h (resolve_or_init_classes_for_subgraph_of k do_init s)" for h
  proof -
    have flds: "is_shared (set_hook h s) = is_shared s"
      "run_time_subgraph_info_table (set_hook h s) = run_time_subgraph_info_table s"
      "is_loading_full_module_graph (set_hook h s) = is_loading_full_module_graph s"
      "klass_is_MethodType (set_hook h s) = klass_is_MethodType s"
      by (simp_all add: set_hook_def)
    show ?thesis
      unfolding resolve_or_init_classes_for_subgraph_of_def flds
      using rec a
      by (auto simp: with_hook_def preseed_MethodType_set_hook resolve_or_init_set_hook
            resolve_or_init_klasses_set_hook Let_def split: sum.splits option.splits prod.splits bool.splits)
  qed
  have b: "resolve_or_init_classes_for_subgraph_of k do_init (set_hook True s)
           = with_hook True (resolve_or_init_classes_for_subgraph_of k do_init (set_hook False s))"
    unfolding gen by (auto simp: with_hook_def split: sum.splits)
  have c: "\<not> is_loading_full_module_graph s \<longrightarrow>
             resolve_or_init_classes_for_subgraph_of k do_init s = Inr (None, s)"
    using rec a' by (simp add: resolve_or_init_classes_for_subgraph_of_def)
  show ?thesis using a b c by blast
qed

theorem full_module_graph_record_ignores_hook_witness:
  "info_is_full_module_graph fmg_info \<and> info_has_non_early_klasses fmg_info
   \<and> \<not> rec_has_non_early_klasses (ArchivedKlassSubGraphInfoRecord_init fmg_info)
   \<and> resolve_or_init_classes_for_subgraph_of 7 False (set_hook True fmg_runtime)
       = with_hook True (resolve_or_init_classes_for_subgraph_of 7 False (set_hook False fmg_runtime))
   \<and> resolve_or_init_classes_for_subgraph_of 7 False (set_hook True fmg_runtime)
       = Inr (Some (ArchivedKlassSubGraphInfoRecord_init fmg_info),
              fmg_runtime\<lparr>class_loader_data_set := {7, 8}\<rparr>)"
  using full_module_graph_record_ignores_hook [of fmg_info fmg_runtime 7 False]
  by (simp add: fmg_info_def fmg_runtime_def example_runtime_def set_hook_def with_hook_def
        ArchivedKlassSubGraphInfoRecord_init_def resolve_or_init_classes_for_subgraph_of_def
        resolve_or_init_def insert_commute)

subsection \<open>archive_object\<close>

lemma has_been_archived_update:
  "has_been_archived (s\<lparr>archived_object_cache := AList.update obj info (archived_object_cache s)\<rparr>) obj"
  by (simp add: has_been_archived_def update_conv')

lemma count_allocation_fields [simp]:
  "archived_object_cache (count_allocation sz s) = archived_object_cache s"
  "seen_objects_table (count_allocation sz s) = seen_objects_table s"
  "pending_roots (count_allocation sz s) = pending_roots s"
  "source_objs (count_allocation sz s) = source_objs s"
  "native_pointers (count_allocation sz s) = native_pointers s"
  "archived_module_roots (count_allocation sz s) = archived_module_roots s"
  "mark_hash (count_allocation sz s) = mark_hash s"
  "hashes_generated (count_allocation sz s) = hashes_generated s"
  "dump_time_subgraph_info_table (count_allocation sz s) = dump_time_subgraph_info_table s"
  "walker_current (count_allocation sz s) = walker_current s"
  by (simp_all add: count_allocation_def)

lemma identity_hash_fields [simp]:
  "archived_object_cache (snd (identity_hash env obj s)) = archived_object_cache s"
  "seen_objects_table (snd (identity_hash env obj s)) = seen_objects_table s"
  "pending_roots (snd (identity_hash env obj s)) = pending_roots s"
  "source_objs (snd (identity_hash env obj s)) = source_objs s"
  "native_pointers (snd (identity_hash env obj s)) = native_pointers s"
  "archived_module_roots (snd (identity_hash env obj s)) = archived_module_roots s"
  "dump_time_subgraph_info_table (snd (identity_hash env obj s)) = dump_time_subgraph_info_table s"
  "walker_current (snd (identity_hash env obj s)) = walker_current s"
  "stats (snd (identity_hash env obj s)) = stats s"
  by (simp_all add: identity_hash_def Let_def split: option.splits)




lemma mark_native_pointers_fields [simp]:
  "archived_object_cache (mark_native_pointers env obj s) = archived_object_cache s"
  "seen_objects_table (mark_native_pointers env obj s) = seen_objects_table s"
  "pending_roots (mark_native_pointers env obj s) = pending_roots s"
  "source_objs (mark_native_pointers env obj s) = source_objs s"
  "archived_module_roots (mark_native_pointers env obj s) = archived_module_roots s"
  "mark_hash (mark_native_pointers env obj s) = mark_hash s"
  "hashes_generated (mark_native_pointers env obj s) = hashes_generated s"
  "dump_time_subgraph_info_table (mark_native_pointers env obj s) = dump_time_subgraph_info_table s"
  "walker_current (mark_native_pointers env obj s) = walker_current s"
  "stats (mark_native_pointers env obj s) = stats s"
  by (simp_all add: mark_native_pointers_def)

text \<open>What a call of archive_object that archives the object does to each component.\<close>

lemma archive_object_new:
  assumes "\<not> has_been_archived s obj" and "\<not> is_too_large_to_archive env (obj_size env obj)"
  shows "fst (archive_object env obj s)"
    and "archived_object_cache (snd (archive_object env obj s))
           = AList.update obj \<lparr>referrer = walker_current s\<rparr> (archived_object_cache s)"
    and "seen_objects_table (snd (archive_object env obj s)) = seen_objects_table s"
    and "source_objs (snd (archive_object env obj s)) = source_objs s @ [obj]"
    and "dump_time_subgraph_info_table (snd (archive_object env obj s)) = dump_time_subgraph_info_table s"
    and "walker_current (snd (archive_object env obj s)) = walker_current s"
    and "mark_hash (snd (archive_object env obj s))
           = mark_hash (snd (identity_hash env obj s))"
    and "pending_roots (snd (archive_object env obj s))
           = (if java_lang_Module_is_instance env obj \<and> check_archived_module_oop env obj
              then pending_roots s @ [Some obj] else pending_roots s)"
  using assms
  by (simp_all add: archive_object_def Let_def split_beta make_cached_oop_info_def append_root_def
        identity_hash_def count_allocation_def mark_native_pointers_def split: option.splits)

lemma archive_object_old:
  "has_been_archived s obj \<Longrightarrow> archive_object env obj s = (True, s)"
  by (simp add: archive_object_def)

lemma archive_object_too_large:
  "\<not> has_been_archived s obj \<Longrightarrow> is_too_large_to_archive env (obj_size env obj) \<Longrightarrow>
   archive_object env obj s = (False, s)"
  by (simp add: archive_object_def)

lemma archive_object_cases:
  obtains (old) "has_been_archived s obj" "archive_object env obj s = (True, s)"
  | (large) "\<not> has_been_archived s obj" "is_too_large_to_archive env (obj_size env obj)"
      "archive_object env obj s = (False, s)"
  | (new) "\<not> has_been_archived s obj" "\<not> is_too_large_to_archive env (obj_size env obj)"
      "fst (archive_object env obj s)"
  using archive_object_old archive_object_too_large archive_object_new(1) by blast

lemma archive_object_success_archived:
  assumes "archive_object env obj s = (True, s')"
  shows "has_been_archived s' obj"
proof (cases rule: archive_object_cases[of s obj env])
  case old
  then show ?thesis using assms by simp
next
  case large
  then show ?thesis using assms by simp
next
  case new
  have "archived_object_cache s' = AList.update obj \<lparr>referrer = walker_current s\<rparr> (archived_object_cache s)"
    using archive_object_new(2)[OF new(1,2)] assms by simp
  then show ?thesis by (simp add: has_been_archived_def update_conv')
qed

lemma filter_key_update_absent:
  "map_of al k = None \<Longrightarrow> filter (\<lambda>e. fst e = k) (AList.update k v al) = [(k, v)]"
  by (induction al) (auto split: if_splits)

lemma filter_key_distinct:
  "distinct (map fst al) \<Longrightarrow> map_of al k = Some v \<Longrightarrow> filter (\<lambda>e. fst e = k) al = [(k, v)]"
proof (induction al)
  case Nil
  then show ?case by simp
next
  case (Cons a al)
  show ?case
  proof (cases "fst a = k")
    case True
    then have "k \<notin> fst ` set al" using Cons.prems by auto
    then have "filter (\<lambda>e. fst e = k) al = []" by (auto simp: filter_empty_conv)
    then show ?thesis using True Cons.prems by (cases a) auto
  next
    case False
    then show ?thesis using Cons by (cases a) auto
  qed
qed

lemma archive_object_distinct:
  assumes "distinct (map fst (archived_object_cache s))"
  shows "distinct (map fst (archived_object_cache (snd (archive_object env obj s))))"
proof (cases rule: archive_object_cases[of s obj env])
  case old
  then show ?thesis using assms by simp
next
  case large
  then show ?thesis using assms by simp
next
  case new
  show ?thesis using archive_object_new(2)[OF new(1,2)] assms by (simp add: distinct_update)
qed




text \<open>
  C2. After a call of \<open>archive_object\<close> that succeeded, a second call on the same object
  succeeds again and leaves the whole state (so the Identity Cache and the Root Table) as it
  is. Where the keys of the Identity Cache were distinct before the first call they are
  distinct after it, and the object has exactly one entry.
\<close>

theorem archive_object_idempotent:
  assumes first: "archive_object env obj s = (True, s')"
  shows "archive_object env obj s' = (True, s')
       \<and> (distinct (map fst (archived_object_cache s)) \<longrightarrow>
            distinct (map fst (archived_object_cache s'))
            \<and> length (filter (\<lambda>e. fst e = obj) (archived_object_cache s')) = 1)"
proof -
  have a: "has_been_archived s' obj" using first by (rule archive_object_success_archived)
  then have b: "archive_object env obj s' = (True, s')" by (rule archive_object_old)
  have c: "distinct (map fst (archived_object_cache s')) \<and>
           length (filter (\<lambda>e. fst e = obj) (archived_object_cache s')) = 1"
    if d: "distinct (map fst (archived_object_cache s))"
  proof -
    have d': "distinct (map fst (archived_object_cache s'))"
      using archive_object_distinct[OF d, of env obj] first by simp
    obtain v where "map_of (archived_object_cache s') obj = Some v"
      using a by (auto simp: has_been_archived_def)
    then show ?thesis using d' filter_key_distinct by fastforce
  qed
  show ?thesis using b c by blast
qed

theorem archive_object_idempotent_witness:
  "fst (archive_object example_env 1 example_dump)
   \<and> archive_object example_env 1 (snd (archive_object example_env 1 example_dump))
       = (True, snd (archive_object example_env 1 example_dump))
   \<and> map fst (archived_object_cache (snd (archive_object example_env 1 example_dump))) = [1]
   \<and> length (filter (\<lambda>e. fst e = 1)
        (archived_object_cache (snd (archive_object example_env 1 example_dump)))) = 1"
proof -
  have new: "\<not> has_been_archived example_dump 1"
    "\<not> is_too_large_to_archive example_env (obj_size example_env 1)"
    by (simp_all add: has_been_archived_def example_dump_def example_env_def)
  have ok: "fst (archive_object example_env 1 example_dump)"
    using new by (rule archive_object_new(1))
  then have first: "archive_object example_env 1 example_dump
      = (True, snd (archive_object example_env 1 example_dump))"
    by (simp add: prod_eq_iff)
  have keys: "map fst (archived_object_cache (snd (archive_object example_env 1 example_dump))) = [1]"
    using archive_object_new(2)[OF new] by (simp add: example_dump_def)
  have d: "distinct (map fst (archived_object_cache example_dump))"
    by (simp add: example_dump_def)
  show ?thesis using archive_object_idempotent [OF first] ok keys d by simp
qed

subsection \<open>Recording an entry field\<close>

text \<open>
  C7. For a static field that holds null, \<open>archive_reachable_objects_from_static_field\<close>
  appends a null root to the Root Table and the pair of the field offset and the index of
  that root to the entry fields of the holder. For a field that holds an object it calls the
  walker at level 1, and appends the root and the pair exactly when the walker returned
  true; when the walker returned false nothing is appended, and an abort of the walker is
  an abort of the call. At run time \<open>init_entry_fields\<close> stores null into the field of an
  entry whose root is null.
\<close>

theorem static_field_entry_recorded:
  assumes info: "dump_time_subgraph_info_table s k = Some info"
  shows "(mirror_obj_field env k field_offset = None \<longrightarrow>
            archive_reachable_objects_from_static_field n env k field_offset s
              = Some (Inr (s\<lparr>pending_roots := pending_roots s @ [None],
                             dump_time_subgraph_info_table := (dump_time_subgraph_info_table s)
                               (k \<mapsto> info\<lparr>info_subgraph_entry_fields :=
                                   Some ((case info_subgraph_entry_fields info of None \<Rightarrow> [] | Some fs \<Rightarrow> fs)
                                         @ [field_offset, int (length (pending_roots s))])\<rparr>)\<rparr>))
            \<and> (pending_roots s @ [None]) ! length (pending_roots s) = None)
       \<and> (\<forall>f s1 info1.
             mirror_obj_field env k field_offset = Some f \<and>
             archive_reachable_objects_from n env 1 k f s = Some (Inr (True, s1)) \<and>
             dump_time_subgraph_info_table s1 k = Some info1 \<longrightarrow>
             archive_reachable_objects_from_static_field n env k field_offset s
               = Some (Inr (s1\<lparr>pending_roots := pending_roots s1 @ [Some f],
                               dump_time_subgraph_info_table := (dump_time_subgraph_info_table s1)
                                 (k \<mapsto> info1\<lparr>info_subgraph_entry_fields :=
                                     Some ((case info_subgraph_entry_fields info1 of None \<Rightarrow> [] | Some fs \<Rightarrow> fs)
                                           @ [field_offset, int (length (pending_roots s1))])\<rparr>)\<rparr>)))
       \<and> (\<forall>f s1.
             mirror_obj_field env k field_offset = Some f \<and>
             archive_reachable_objects_from n env 1 k f s = Some (Inr (False, s1)) \<longrightarrow>
             archive_reachable_objects_from_static_field n env k field_offset s = Some (Inr s1))
       \<and> (\<forall>f e.
             mirror_obj_field env k field_offset = Some f \<and>
             archive_reachable_objects_from n env 1 k f s = Some (Inl e) \<longrightarrow>
             archive_reachable_objects_from_static_field n env k field_offset s = Some (Inl e))
       \<and> (\<forall>rs holder index.
             0 \<le> index \<and> index < int (length (roots rs)) \<and> roots rs ! nat index = None \<longrightarrow>
             (\<exists>rs'. init_entry_fields holder [field_offset, index] rs = Inr rs'
                \<and> mirror_static_fields rs' holder field_offset = Some None))"
proof -
  have dump: "(mirror_obj_field env k field_offset = None \<longrightarrow>
            archive_reachable_objects_from_static_field n env k field_offset s
              = Some (Inr (s\<lparr>pending_roots := pending_roots s @ [None],
                             dump_time_subgraph_info_table := (dump_time_subgraph_info_table s)
                               (k \<mapsto> info\<lparr>info_subgraph_entry_fields :=
                                   Some ((case info_subgraph_entry_fields info of None \<Rightarrow> [] | Some fs \<Rightarrow> fs)
                                         @ [field_offset, int (length (pending_roots s))])\<rparr>)\<rparr>))
            \<and> (pending_roots s @ [None]) ! length (pending_roots s) = None)
       \<and> (\<forall>f s1 info1.
             mirror_obj_field env k field_offset = Some f \<and>
             archive_reachable_objects_from n env 1 k f s = Some (Inr (True, s1)) \<and>
             dump_time_subgraph_info_table s1 k = Some info1 \<longrightarrow>
             archive_reachable_objects_from_static_field n env k field_offset s
               = Some (Inr (s1\<lparr>pending_roots := pending_roots s1 @ [Some f],
                               dump_time_subgraph_info_table := (dump_time_subgraph_info_table s1)
                                 (k \<mapsto> info1\<lparr>info_subgraph_entry_fields :=
                                     Some ((case info_subgraph_entry_fields info1 of None \<Rightarrow> [] | Some fs \<Rightarrow> fs)
                                           @ [field_offset, int (length (pending_roots s1))])\<rparr>)\<rparr>)))
       \<and> (\<forall>f s1.
             mirror_obj_field env k field_offset = Some f \<and>
             archive_reachable_objects_from n env 1 k f s = Some (Inr (False, s1)) \<longrightarrow>
             archive_reachable_objects_from_static_field n env k field_offset s = Some (Inr s1))
       \<and> (\<forall>f e.
             mirror_obj_field env k field_offset = Some f \<and>
             archive_reachable_objects_from n env 1 k f s = Some (Inl e) \<longrightarrow>
             archive_reachable_objects_from_static_field n env k field_offset s = Some (Inl e))"
    using info
    by (auto simp: archive_reachable_objects_from_static_field_def add_subgraph_entry_field_def
          append_root_def Let_def)
  have restore: "\<forall>rs holder index.
             0 \<le> index \<and> index < int (length (roots rs)) \<and> roots rs ! nat index = None \<longrightarrow>
             (\<exists>rs'. init_entry_fields holder [field_offset, index] rs = Inr rs'
                \<and> mirror_static_fields rs' holder field_offset = Some None)"
    by (simp add: get_root_def clear_root_def obj_at_def obj_at_put_def obj_field_put_def)
  show ?thesis using dump restore by (elim conjE) (intro conjI; assumption)
qed

theorem static_field_entry_recorded_witness:
  "mirror_obj_field example_env 7 116 = None
   \<and> map_option pending_roots
       (completed (archive_reachable_objects_from_static_field 3 example_env 7 116 example_dump)) = Some [None]
   \<and> map_option (entry_fields_of 7)
       (completed (archive_reachable_objects_from_static_field 3 example_env 7 116 example_dump)) = Some [116, 0]
   \<and> mirror_obj_field example_env 7 112 = Some 1
   \<and> returned (archive_reachable_objects_from 3 example_env 1 7 1 example_dump) = Some True
   \<and> map_option pending_roots
       (completed (archive_reachable_objects_from_static_field 3 example_env 7 112 example_dump)) = Some [Some 1]
   \<and> map_option (entry_fields_of 7)
       (completed (archive_reachable_objects_from_static_field 3 example_env 7 112 example_dump)) = Some [112, 0]
   \<and> mirror_obj_field example_env 7 120 = Some 3
   \<and> returned (archive_reachable_objects_from 3 example_env 1 7 3 example_dump) = Some False
   \<and> map_option pending_roots
       (completed (archive_reachable_objects_from_static_field 3 example_env 7 120 example_dump)) = Some []
   \<and> map_option (entry_fields_of 7)
       (completed (archive_reachable_objects_from_static_field 3 example_env 7 120 example_dump)) = Some []"
proof -
  have i: "dump_time_subgraph_info_table example_dump 7 = Some example_info"
    and m: "mirror_obj_field example_env 7 116 = None"
    by (simp_all add: example_dump_def example_env_def)
  have null: "map_option pending_roots
       (completed (archive_reachable_objects_from_static_field 3 example_env 7 116 example_dump)) = Some [None]
   \<and> map_option (entry_fields_of 7)
       (completed (archive_reachable_objects_from_static_field 3 example_env 7 116 example_dump)) = Some [116, 0]"
    using static_field_entry_recorded [OF i, of example_env 116 3] m
    by (simp add: completed_def entry_fields_of_def example_dump_def example_info_def)
  have rest: "mirror_obj_field example_env 7 112 = Some 1
   \<and> returned (archive_reachable_objects_from 3 example_env 1 7 1 example_dump) = Some True
   \<and> map_option pending_roots
       (completed (archive_reachable_objects_from_static_field 3 example_env 7 112 example_dump)) = Some [Some 1]
   \<and> map_option (entry_fields_of 7)
       (completed (archive_reachable_objects_from_static_field 3 example_env 7 112 example_dump)) = Some [112, 0]
   \<and> mirror_obj_field example_env 7 120 = Some 3
   \<and> returned (archive_reachable_objects_from 3 example_env 1 7 3 example_dump) = Some False
   \<and> map_option pending_roots
       (completed (archive_reachable_objects_from_static_field 3 example_env 7 120 example_dump)) = Some []
   \<and> map_option (entry_fields_of 7)
       (completed (archive_reachable_objects_from_static_field 3 example_env 7 120 example_dump)) = Some []"
    by code_simp
  show ?thesis using m null rest by simp
qed

subsection \<open>The walker: what every call keeps\<close>

lemma set_seen_fields [simp]:
  "archived_object_cache (set_has_been_seen_during_subgraph_recording obj s) = archived_object_cache s"
  "seen_objects_table (set_has_been_seen_during_subgraph_recording obj s) = insert obj (seen_objects_table s)"
  "pending_roots (set_has_been_seen_during_subgraph_recording obj s) = pending_roots s"
  "source_objs (set_has_been_seen_during_subgraph_recording obj s) = source_objs s"
  "mark_hash (set_has_been_seen_during_subgraph_recording obj s) = mark_hash s"
  "dump_time_subgraph_info_table (set_has_been_seen_during_subgraph_recording obj s) = dump_time_subgraph_info_table s"
  "walker_current (set_has_been_seen_during_subgraph_recording obj s) = walker_current s"
  by (simp_all add: set_has_been_seen_during_subgraph_recording_def)

lemma has_been_archived_cong:
  "archived_object_cache s = archived_object_cache t \<Longrightarrow> has_been_archived s = has_been_archived t"
  by (simp add: has_been_archived_def fun_eq_iff)

lemma add_klass_of_fields:
  assumes "add_subgraph_object_klass_of env sg k s = Inr s'"
  shows "archived_object_cache s' = archived_object_cache s"
    and "seen_objects_table s' = seen_objects_table s"
    and "pending_roots s' = pending_roots s"
    and "source_objs s' = source_objs s"
    and "mark_hash s' = mark_hash s"
    and "walker_current s' = walker_current s"
    and "\<exists>info info'. dump_time_subgraph_info_table s sg = Some info
           \<and> add_subgraph_object_klass env k info = Inr info'
           \<and> dump_time_subgraph_info_table s' = (dump_time_subgraph_info_table s)(sg \<mapsto> info')"
  using assms
  by (auto simp: add_subgraph_object_klass_of_def split: option.splits sum.splits)

lemma has_been_archived_stats [simp]:
  "has_been_archived (s\<lparr>stats := st\<rparr>) = has_been_archived s"
  by (simp add: has_been_archived_def fun_eq_iff)

lemma has_been_archived_set_seen [simp]:
  "has_been_archived (set_has_been_seen_during_subgraph_recording obj s) = has_been_archived s"
  by (simp add: has_been_archived_def fun_eq_iff)

lemma enter_eq:
  "archive_reachable_objects_from_enter env level sg obj s =
     (if \<not> is_supported_for_archiving env obj then Return (Inl UnrecoverableWritingError)
      else case mirror_substitute env obj of
        None \<Rightarrow> Return (Inl NullPointer)
      | Some obj' \<Rightarrow>
          if obj' \<in> seen_objects_table s then Return (Inr (True, s))
          else if \<not> has_been_archived s obj' \<and> is_too_large_to_archive env (obj_size env obj') then
            (if level = 1 then Return (Inr (False, entered env obj' s))
             else Return (Inl UnrecoverableWritingError))
          else (case add_subgraph_object_klass_of env sg (obj_klass env obj') (entered env obj' s) of
                  Inl e \<Rightarrow> Return (Inl e)
                | Inr s5 \<Rightarrow> Walk obj' s5))"
proof -
  have fst_eq: "fst (archive_object env obj' t) = (\<not> is_too_large_to_archive env (obj_size env obj'))"
    if "\<not> has_been_archived t obj'" for t obj'
    using that by (simp add: archive_object_def Let_def split_beta)
  show ?thesis
    unfolding archive_reachable_objects_from_enter_def mirror_substitute_def [symmetric]
      has_been_seen_during_subgraph_recording_def entered_def Let_def
    by (auto simp: split_beta fst_eq split: option.splits sum.splits)
qed

lemma entered_fields:
  "seen_objects_table (entered env obj s) = insert obj (seen_objects_table s)"
  "dump_time_subgraph_info_table (entered env obj s) = dump_time_subgraph_info_table s"
  "walker_current (entered env obj s) = walker_current s"
proof -
  let ?s1 = "set_has_been_seen_during_subgraph_recording obj s"
  let ?s2 = "?s1\<lparr>stats := (stats ?s1)\<lparr>num_new_archived_objs := num_new_archived_objs (stats ?s1) + 1\<rparr>\<rparr>"
  have "seen_objects_table (snd (archive_object env obj ?s2)) = insert obj (seen_objects_table s)
      \<and> dump_time_subgraph_info_table (snd (archive_object env obj ?s2)) = dump_time_subgraph_info_table s
      \<and> walker_current (snd (archive_object env obj ?s2)) = walker_current s"
    by (cases rule: archive_object_cases[of ?s2 obj env]) (simp_all add: archive_object_new)
  then show "seen_objects_table (entered env obj s) = insert obj (seen_objects_table s)"
    "dump_time_subgraph_info_table (entered env obj s) = dump_time_subgraph_info_table s"
    "walker_current (entered env obj s) = walker_current s"
    by (simp_all add: entered_def Let_def)
qed

lemma entered_too_large:
  assumes "\<not> has_been_archived s obj" "is_too_large_to_archive env (obj_size env obj)"
  shows "archived_object_cache (entered env obj s) = archived_object_cache s"
    and "pending_roots (entered env obj s) = pending_roots s"
    and "source_objs (entered env obj s) = source_objs s"
  using assms by (simp_all add: entered_def Let_def archive_object_too_large)

lemma entered_archived:
  assumes "has_been_archived s obj \<or> \<not> is_too_large_to_archive env (obj_size env obj)"
  shows "has_been_archived (entered env obj s) obj"
proof (cases "has_been_archived s obj")
  case True
  then show ?thesis by (simp add: entered_def Let_def)
next
  case False
  let ?s1 = "set_has_been_seen_during_subgraph_recording obj s"
  let ?s2 = "?s1\<lparr>stats := (stats ?s1)\<lparr>num_new_archived_objs := num_new_archived_objs (stats ?s1) + 1\<rparr>\<rparr>"
  have n: "\<not> has_been_archived ?s2 obj" using False by simp
  have l: "\<not> is_too_large_to_archive env (obj_size env obj)" using False assms by simp
  have "archive_object env obj ?s2 = (True, snd (archive_object env obj ?s2))"
    using archive_object_new(1)[OF n l] by (simp add: prod_eq_iff)
  then have "has_been_archived (snd (archive_object env obj ?s2)) obj"
    by (rule archive_object_success_archived)
  then show ?thesis using False by (simp add: entered_def Let_def)
qed

lemma archive_object_archived_mono:
  "has_been_archived s x \<Longrightarrow> has_been_archived (snd (archive_object env obj s)) x"
proof (cases rule: archive_object_cases[of s obj env])
  case new
  assume "has_been_archived s x"
  then show ?thesis using archive_object_new(2)[OF new(1,2)]
    by (auto simp: has_been_archived_def update_conv')
qed simp_all

lemma entered_archived_mono:
  "has_been_archived s x \<Longrightarrow> has_been_archived (entered env obj s) x"
  by (simp add: entered_def Let_def archive_object_archived_mono)

lemma wp_ret:
  "walker_preserves env sg P \<Longrightarrow> P s \<Longrightarrow>
   archive_reachable_objects_from_enter env level sg obj s = Return (Inr (b, s')) \<Longrightarrow> P s'"
  unfolding walker_preserves_def by metis

lemma wp_walk:
  "walker_preserves env sg P \<Longrightarrow> P s \<Longrightarrow>
   archive_reachable_objects_from_enter env level sg obj s = Walk obj' s' \<Longrightarrow> P s'"
  unfolding walker_preserves_def by metis

lemma wp_cur:
  "walker_preserves env sg P \<Longrightarrow> P s \<Longrightarrow> P (s\<lparr>walker_current := w\<rparr>)"
  unfolding walker_preserves_def by metis

lemma walker_Suc_Return:
  "archive_reachable_objects_from_enter env level sg obj s = Return r \<Longrightarrow>
   archive_reachable_objects_from (Suc n) env level sg obj s = Some r"
  by simp

lemma walker_Suc_Walk:
  "archive_reachable_objects_from_enter env level sg obj s = Walk obj' s1 \<Longrightarrow>
   archive_reachable_objects_from (Suc n) env level sg obj s = Some (Inr (b, s')) \<Longrightarrow>
   \<exists>s2 s3. oop_iterate n env level sg (obj_oop_fields env obj') (s1\<lparr>walker_current := Some obj'\<rparr>) = Some (Inr s2)
     \<and> (if is_enum_obj env obj'
         then oop_iterate n env level sg (map Some (enum_constant_refs env obj')) s2 = Some (Inr s3)
         else s3 = s2)
     \<and> b \<and> s' = s3\<lparr>walker_current := walker_current s1\<rparr>"
  by (simp split: option.splits sum.splits if_splits)

lemma oop_iterate_Cons_Some:
  "oop_iterate n env level sg (Some obj # ps) s = Some (Inr s'') \<Longrightarrow>
   \<exists>b s1. archive_reachable_objects_from n env (level + 1) sg obj s = Some (Inr (b, s1))
     \<and> oop_iterate n env level sg ps s1 = Some (Inr s'')"
  by (simp split: option.splits sum.splits prod.splits)

lemma walker_invariant:
  "walker_preserves env sg P \<Longrightarrow> P s \<Longrightarrow>
     archive_reachable_objects_from n env level sg obj s = Some (Inr (b, s')) \<Longrightarrow> P s'"
  "walker_preserves env sg P \<Longrightarrow> P s \<Longrightarrow>
     oop_iterate n env level sg ps s = Some (Inr s'') \<Longrightarrow> P s''"
proof (induction n env level sg obj s and n env level sg ps s arbitrary: b s' and s''
        rule: archive_reachable_objects_from_oop_iterate.induct)
  case (1 env level sg orig_obj s)
  then show ?case by simp
next
  case (2 n env level sg orig_obj s)
  note wp = "2.prems"(1)
  show ?case
  proof (cases "archive_reachable_objects_from_enter env level sg orig_obj s")
    case (Return r)
    then have "r = Inr (b, s')" using "2.prems"(3) walker_Suc_Return[OF Return, of n] by simp
    then show ?thesis using wp_ret[OF wp "2.prems"(2)] Return by simp
  next
    case (Walk obj' s1)
    let ?s1 = "s1\<lparr>walker_current := Some obj'\<rparr>"
    have "P s1" using wp_walk[OF wp "2.prems"(2) Walk] .
    then have p1: "P ?s1" by (rule wp_cur[OF wp])
    obtain s2 s3 where it: "oop_iterate n env level sg (obj_oop_fields env obj') ?s1 = Some (Inr s2)"
      and en: "if is_enum_obj env obj'
         then oop_iterate n env level sg (map Some (enum_constant_refs env obj')) s2 = Some (Inr s3)
         else s3 = s2"
      and s': "s' = s3\<lparr>walker_current := walker_current s1\<rparr>"
      using walker_Suc_Walk[OF Walk "2.prems"(3)] by blast
    have p2: "P s2" using "2.IH"(1)[OF Walk wp p1 it] .
    have p3: "P s3"
    proof (cases "is_enum_obj env obj'")
      case True
      then have "oop_iterate n env level sg (map Some (enum_constant_refs env obj')) s2 = Some (Inr s3)"
        using en by simp
      then show ?thesis using "2.IH"(2)[OF Walk it refl True wp p2] by simp
    next
      case False
      then show ?thesis using en p2 by simp
    qed
    show ?thesis unfolding s' using p3 by (rule wp_cur[OF wp])
  qed
next
  case (3 n env level sg s)
  then show ?case by simp
next
  case (4 n env level sg ps s)
  then show ?case by simp
next
  case (5 n env level sg obj ps s)
  obtain b s1 where a: "archive_reachable_objects_from n env (level + 1) sg obj s = Some (Inr (b, s1))"
    and r: "oop_iterate n env level sg ps s1 = Some (Inr s'')"
    using oop_iterate_Cons_Some[OF "5.prems"(3)] by blast
  have "P s1" using "5.IH"(1)[OF "5.prems"(1,2) a] .
  then show ?case using "5.IH"(2)[OF a refl refl "5.prems"(1) _ r] by simp
qed

lemma enter_ReturnE:
  assumes "archive_reachable_objects_from_enter env level sg obj s = Return (Inr (b, s'))"
  obtains (seen) obj' where "mirror_substitute env obj = Some obj'" "obj' \<in> seen_objects_table s"
      "b" "s' = s"
  | (large) obj' where "mirror_substitute env obj = Some obj'" "obj' \<notin> seen_objects_table s"
      "\<not> has_been_archived s obj'" "is_too_large_to_archive env (obj_size env obj')"
      "level = 1" "\<not> b" "s' = entered env obj' s"
  using assms unfolding enter_eq
  by (auto split: if_splits option.splits sum.splits)

lemma enter_WalkE:
  assumes "archive_reachable_objects_from_enter env level sg obj s = Walk obj' s'"
  obtains "mirror_substitute env obj = Some obj'" "obj' \<notin> seen_objects_table s"
      "has_been_archived s obj' \<or> \<not> is_too_large_to_archive env (obj_size env obj')"
      "add_subgraph_object_klass_of env sg (obj_klass env obj') (entered env obj' s) = Inr s'"
      "is_supported_for_archiving env obj"
  using assms unfolding enter_eq
  by (auto split: if_splits option.splits sum.splits)

lemma enter_Walk_props:
  assumes "archive_reachable_objects_from_enter env level sg obj s = Walk obj' s'"
  shows "seen_objects_table s' = insert obj' (seen_objects_table s)"
    and "has_been_archived s' obj'"
    and "has_been_archived s x \<Longrightarrow> has_been_archived s' x"
    and "walker_current s' = walker_current s"
proof -
  from assms have a: "has_been_archived s obj' \<or> \<not> is_too_large_to_archive env (obj_size env obj')"
    and k: "add_subgraph_object_klass_of env sg (obj_klass env obj') (entered env obj' s) = Inr s'"
    by (auto elim: enter_WalkE)
  have c: "has_been_archived s' = has_been_archived (entered env obj' s)"
    using add_klass_of_fields(1)[OF k] by (rule has_been_archived_cong)
  show "seen_objects_table s' = insert obj' (seen_objects_table s)"
    using add_klass_of_fields(2)[OF k] by (simp add: entered_fields)
  show "has_been_archived s' obj'" using c entered_archived[OF a] by simp
  show "has_been_archived s x \<Longrightarrow> has_been_archived s' x"
    using c entered_archived_mono by simp
  show "walker_current s' = walker_current s"
    using add_klass_of_fields(6)[OF k] by (simp add: entered_fields)
qed

lemma has_been_archived_walker_current [simp]:
  "has_been_archived (s\<lparr>walker_current := w\<rparr>) = has_been_archived s"
  by (simp add: has_been_archived_def fun_eq_iff)

lemma wp_seen: "walker_preserves env sg (\<lambda>t. A \<subseteq> seen_objects_table t)"
  unfolding walker_preserves_def
proof (intro conjI allI impI)
  fix level obj s b s'
  assume "A \<subseteq> seen_objects_table s"
    and "archive_reachable_objects_from_enter env level sg obj s = Return (Inr (b, s'))"
  then show "A \<subseteq> seen_objects_table s'"
    by (auto elim!: enter_ReturnE simp: entered_fields)
next
  fix level obj s obj' s'
  assume "A \<subseteq> seen_objects_table s"
    and "archive_reachable_objects_from_enter env level sg obj s = Walk obj' s'"
  then show "A \<subseteq> seen_objects_table s'"
    using enter_Walk_props(1) by blast
qed simp

lemma wp_archived: "walker_preserves env sg (\<lambda>t. has_been_archived t x)"
  unfolding walker_preserves_def
proof (intro conjI allI impI)
  fix level obj s b s'
  assume "has_been_archived s x"
    and "archive_reachable_objects_from_enter env level sg obj s = Return (Inr (b, s'))"
  then show "has_been_archived s' x"
    by (auto elim!: enter_ReturnE simp: entered_archived_mono)
next
  fix level obj s obj' s'
  assume "has_been_archived s x"
    and "archive_reachable_objects_from_enter env level sg obj s = Walk obj' s'"
  then show "has_been_archived s' x"
    using enter_Walk_props(3) by blast
qed simp

lemma walker_seen_mono:
  "archive_reachable_objects_from n env level sg obj s = Some (Inr (b, s')) \<Longrightarrow>
   seen_objects_table s \<subseteq> seen_objects_table s'"
  "oop_iterate n env level sg ps s = Some (Inr s'') \<Longrightarrow>
   seen_objects_table s \<subseteq> seen_objects_table s''"
  using walker_invariant[OF wp_seen[where A = "seen_objects_table s"]] by blast+

lemma walker_archived_mono:
  "archive_reachable_objects_from n env level sg obj s = Some (Inr (b, s')) \<Longrightarrow>
   has_been_archived s x \<Longrightarrow> has_been_archived s' x"
  "oop_iterate n env level sg ps s = Some (Inr s'') \<Longrightarrow>
   has_been_archived s x \<Longrightarrow> has_been_archived s'' x"
  using walker_invariant[OF wp_archived[where x = x]] by blast+

lemma walker_true:
  assumes "level \<noteq> 1" and "archive_reachable_objects_from n env level sg obj s = Some (Inr (b, s'))"
  shows b
proof (cases n)
  case 0
  then show ?thesis using assms by simp
next
  case (Suc m)
  show ?thesis
  proof (cases "archive_reachable_objects_from_enter env level sg obj s")
    case (Return r)
    then have "archive_reachable_objects_from_enter env level sg obj s = Return (Inr (b, s'))"
      using assms(2) Suc by simp
    then show ?thesis using assms(1) by (auto elim: enter_ReturnE)
  next
    case (Walk obj' s1)
    then show ?thesis using walker_Suc_Walk[OF Walk] assms(2) Suc by blast
  qed
qed

lemma newly_closed_refl [simp]: "newly_closed env s s"
  by (simp add: newly_closed_def)

lemma newly_closed_trans:
  assumes "newly_closed env s s1" "newly_closed env s1 s2"
    and "seen_objects_table s1 \<subseteq> seen_objects_table s2"
    and "\<And>x. has_been_archived s1 x \<Longrightarrow> has_been_archived s2 x"
  shows "newly_closed env s s2"
  using assms unfolding newly_closed_def by blast

lemma walker_closure:
  "1 \<le> level \<Longrightarrow> archive_reachable_objects_from n env level sg obj s = Some (Inr (b, s')) \<Longrightarrow>
     (\<exists>obj'. mirror_substitute env obj = Some obj' \<and> obj' \<in> seen_objects_table s')
     \<and> (b \<longrightarrow> newly_closed env s s')"
  "1 \<le> level \<Longrightarrow> oop_iterate n env level sg ps s = Some (Inr s'') \<Longrightarrow>
     (\<forall>r r'. Some r \<in> set ps \<longrightarrow> mirror_substitute env r = Some r' \<longrightarrow> r' \<in> seen_objects_table s'')
     \<and> newly_closed env s s''"
proof (induction n env level sg obj s and n env level sg ps s arbitrary: b s' and s''
        rule: archive_reachable_objects_from_oop_iterate.induct)
  case (1 env level sg orig_obj s)
  then show ?case by simp
next
  case (2 n env level sg orig_obj s)
  show ?case
  proof (cases "archive_reachable_objects_from_enter env level sg orig_obj s")
    case (Return r)
    then have r: "archive_reachable_objects_from_enter env level sg orig_obj s = Return (Inr (b, s'))"
      using "2.prems"(2) by simp
    then show ?thesis
    proof (cases rule: enter_ReturnE)
      case (seen obj')
      then show ?thesis by simp
    next
      case (large obj')
      then show ?thesis by (simp add: entered_fields)
    qed
  next
    case (Walk obj' s1)
    let ?s1 = "s1\<lparr>walker_current := Some obj'\<rparr>"
    note wk = enter_Walk_props[OF Walk]
    have sub: "mirror_substitute env orig_obj = Some obj'"
      and unseen: "obj' \<notin> seen_objects_table s"
      using Walk by (auto elim: enter_WalkE)
    obtain s2 s3 where it: "oop_iterate n env level sg (obj_oop_fields env obj') ?s1 = Some (Inr s2)"
      and en: "if is_enum_obj env obj'
         then oop_iterate n env level sg (map Some (enum_constant_refs env obj')) s2 = Some (Inr s3)
         else s3 = s2"
      and s': "s' = s3\<lparr>walker_current := walker_current s1\<rparr>"
      using walker_Suc_Walk[OF Walk "2.prems"(2)] by blast
    note lv = "2.prems"(1)
    have ih1: "\<forall>r r'. Some r \<in> set (obj_oop_fields env obj') \<longrightarrow> mirror_substitute env r = Some r'
                 \<longrightarrow> r' \<in> seen_objects_table s2"
      and c1: "newly_closed env ?s1 s2"
      using "2.IH"(1)[OF Walk lv it] by blast+
    have m1: "seen_objects_table ?s1 \<subseteq> seen_objects_table s2"
      and a1: "\<And>x. has_been_archived ?s1 x \<Longrightarrow> has_been_archived s2 x"
      using walker_seen_mono(2)[OF it] walker_archived_mono(2)[OF it] by blast+
    have ih2: "\<forall>r r'. is_enum_obj env obj' \<longrightarrow> r \<in> set (enum_constant_refs env obj') \<longrightarrow>
                 mirror_substitute env r = Some r' \<longrightarrow> r' \<in> seen_objects_table s3"
      and c2: "newly_closed env s2 s3"
      and m2: "seen_objects_table s2 \<subseteq> seen_objects_table s3"
      and a2: "\<And>x. has_been_archived s2 x \<Longrightarrow> has_been_archived s3 x"
    proof -
      show "\<forall>r r'. is_enum_obj env obj' \<longrightarrow> r \<in> set (enum_constant_refs env obj') \<longrightarrow>
                 mirror_substitute env r = Some r' \<longrightarrow> r' \<in> seen_objects_table s3"
      proof (cases "is_enum_obj env obj'")
        case True
        then have e: "oop_iterate n env level sg (map Some (enum_constant_refs env obj')) s2 = Some (Inr s3)"
          using en by simp
        show ?thesis using "2.IH"(2)[OF Walk it refl True lv e] by auto
      qed simp
      show "newly_closed env s2 s3"
      proof (cases "is_enum_obj env obj'")
        case True
        then have e: "oop_iterate n env level sg (map Some (enum_constant_refs env obj')) s2 = Some (Inr s3)"
          using en by simp
        show ?thesis using "2.IH"(2)[OF Walk it refl True lv e] by auto
      next
        case False
        then show ?thesis using en by simp
      qed
      show "seen_objects_table s2 \<subseteq> seen_objects_table s3"
        using en walker_seen_mono(2)[of n env level sg _ s2 s3] by (auto split: if_splits)
      show "\<And>x. has_been_archived s2 x \<Longrightarrow> has_been_archived s3 x"
        using en walker_archived_mono(2)[of n env level sg _ s2 s3] by (auto split: if_splits)
    qed
    have seen': "seen_objects_table s' = seen_objects_table s3"
      unfolding s' by simp
    have arch': "has_been_archived s' x = has_been_archived s3 x" for x
      unfolding s' by simp
    have root_in: "obj' \<in> seen_objects_table s'"
      using wk(1) m1 m2 seen' by auto
    have succ: "successors env obj' \<subseteq> seen_objects_table s'"
    proof
      fix r' assume "r' \<in> successors env obj'"
      then obtain r where r: "Some r \<in> set (obj_oop_fields env obj')
                \<or> (is_enum_obj env obj' \<and> r \<in> set (enum_constant_refs env obj'))"
        and m: "mirror_substitute env r = Some r'"
        unfolding successors_def by blast
      from r show "r' \<in> seen_objects_table s'"
      proof
        assume "Some r \<in> set (obj_oop_fields env obj')"
        then have "r' \<in> seen_objects_table s2" using ih1 m by blast
        then show ?thesis using m2 seen' by auto
      next
        assume "is_enum_obj env obj' \<and> r \<in> set (enum_constant_refs env obj')"
        then have "r' \<in> seen_objects_table s3" using ih2 m by blast
        then show ?thesis using seen' by simp
      qed
    qed
    have "newly_closed env s s'"
      unfolding newly_closed_def
    proof
      fix x assume x: "x \<in> seen_objects_table s' - seen_objects_table s"
      then consider "x = obj'" | "x \<in> seen_objects_table s2 - seen_objects_table ?s1"
        | "x \<in> seen_objects_table s3 - seen_objects_table s2"
        using wk(1) seen' by auto
      then show "has_been_archived s' x \<and> successors env x \<subseteq> seen_objects_table s'"
      proof cases
        case 1
        have "has_been_archived ?s1 obj'" using wk(2) by simp
        then have "has_been_archived s2 obj'" by (rule a1)
        then have "has_been_archived s3 obj'" by (rule a2)
        then show ?thesis using 1 succ by (simp add: arch')
      next
        case 2
        then have "has_been_archived s2 x" and "successors env x \<subseteq> seen_objects_table s2"
          using c1 unfolding newly_closed_def by blast+
        then have "has_been_archived s3 x" and "successors env x \<subseteq> seen_objects_table s3"
          using a2 m2 by blast+
        then show ?thesis by (simp add: arch' seen')
      next
        case 3
        then have "has_been_archived s3 x" and "successors env x \<subseteq> seen_objects_table s3"
          using c2 unfolding newly_closed_def by blast+
        then show ?thesis by (simp add: arch' seen')
      qed
    qed
    then show ?thesis using sub root_in by simp
  qed
next
  case (3 n env level sg s)
  then show ?case by simp
next
  case (4 n env level sg ps s)
  then show ?case by simp
next
  case (5 n env level sg obj ps s)
  obtain b s1 where a: "archive_reachable_objects_from n env (level + 1) sg obj s = Some (Inr (b, s1))"
    and r: "oop_iterate n env level sg ps s1 = Some (Inr s'')"
    using oop_iterate_Cons_Some[OF "5.prems"(2)] by blast
  have lv: "1 \<le> level + 1" and lv': "level + 1 \<noteq> 1" using "5.prems"(1) by auto
  have b: b using walker_true[OF lv' a] .
  have ih1: "\<exists>obj'. mirror_substitute env obj = Some obj' \<and> obj' \<in> seen_objects_table s1"
    and c1: "newly_closed env s s1"
    using "5.IH"(1)[OF lv a] b by blast+
  have ih2: "\<forall>r r'. Some r \<in> set ps \<longrightarrow> mirror_substitute env r = Some r' \<longrightarrow> r' \<in> seen_objects_table s''"
    and c2: "newly_closed env s1 s''"
    using "5.IH"(2)[OF a refl refl "5.prems"(1) r] by blast+
  have m2: "seen_objects_table s1 \<subseteq> seen_objects_table s''"
    and a2: "\<And>x. has_been_archived s1 x \<Longrightarrow> has_been_archived s'' x"
    using walker_seen_mono(2)[OF r] walker_archived_mono(2)[OF r] by blast+
  have c: "newly_closed env s s''"
    using c1 c2 m2 a2 by (rule newly_closed_trans)
  have "r' \<in> seen_objects_table s''"
    if "Some r \<in> set (Some obj # ps)" "mirror_substitute env r = Some r'" for r r'
  proof (cases "r = obj")
    case True
    then show ?thesis using ih1 that(2) m2 by auto
  next
    case False
    then show ?thesis using ih2 that by auto
  qed
  then show ?case using c by blast
qed

lemma card_diff_mono:
  "finite U \<Longrightarrow> A \<subseteq> B \<Longrightarrow> card (U - B) \<le> card (U - A)"
  by (intro card_mono) auto

lemma card_diff_insert:
  "finite U \<Longrightarrow> x \<in> U \<Longrightarrow> x \<notin> A \<Longrightarrow> card (U - insert x A) < card (U - A)"
  by (intro psubset_card_mono) auto

lemma walker_enough_fuel:
  "finite U \<Longrightarrow> \<forall>x\<in>U. successors env x \<subseteq> U \<Longrightarrow>
   \<forall>obj'. mirror_substitute env obj = Some obj' \<longrightarrow> obj' \<in> U \<Longrightarrow>
   card (U - seen_objects_table s) < n \<Longrightarrow>
     archive_reachable_objects_from n env level sg obj s \<noteq> None"
  "finite U \<Longrightarrow> \<forall>x\<in>U. successors env x \<subseteq> U \<Longrightarrow>
   \<forall>r r'. Some r \<in> set ps \<longrightarrow> mirror_substitute env r = Some r' \<longrightarrow> r' \<in> U \<Longrightarrow>
   card (U - seen_objects_table s) < n \<Longrightarrow>
     oop_iterate n env level sg ps s \<noteq> None"
proof (induction n env level sg obj s and n env level sg ps s
        rule: archive_reachable_objects_from_oop_iterate.induct)
  case (1 env level sg orig_obj s)
  then show ?case by simp
next
  case (2 n env level sg orig_obj s)
  note fin = "2.prems"(1) and cl = "2.prems"(2)
  show ?case
  proof (cases "archive_reachable_objects_from_enter env level sg orig_obj s")
    case (Return r)
    then show ?thesis by simp
  next
    case (Walk obj' s1)
    let ?s1 = "s1\<lparr>walker_current := Some obj'\<rparr>"
    note wk = enter_Walk_props[OF Walk]
    have sub: "mirror_substitute env orig_obj = Some obj'"
      and unseen: "obj' \<notin> seen_objects_table s"
      using Walk by (auto elim: enter_WalkE)
    have inU: "obj' \<in> U" using "2.prems"(3) sub by blast
    have "card (U - seen_objects_table ?s1) < card (U - seen_objects_table s)"
      using card_diff_insert[OF fin inU unseen] wk(1) by simp
    then have fuel1: "card (U - seen_objects_table ?s1) < n" using "2.prems"(4) by simp
    have succU: "successors env obj' \<subseteq> U" using cl inU by blast
    have refs1: "\<forall>r r'. Some r \<in> set (obj_oop_fields env obj') \<longrightarrow> mirror_substitute env r = Some r'
                  \<longrightarrow> r' \<in> U"
      using succU unfolding successors_def by blast
    have it: "oop_iterate n env level sg (obj_oop_fields env obj') ?s1 \<noteq> None"
      using "2.IH"(1)[OF Walk fin cl refs1 fuel1] .
    show ?thesis
    proof (cases "oop_iterate n env level sg (obj_oop_fields env obj') ?s1")
      case None
      then show ?thesis using it by simp
    next
      case (Some res)
      show ?thesis
      proof (cases res)
        case (Inl e)
        then show ?thesis using Walk Some by simp
      next
        case (Inr s2)
        have it2: "oop_iterate n env level sg (obj_oop_fields env obj') ?s1 = Some (Inr s2)"
          using Some Inr by simp
        show ?thesis
        proof (cases "is_enum_obj env obj'")
          case False
          then show ?thesis using Walk it2 by simp
        next
          case True
          have refs2: "\<forall>r r'. Some r \<in> set (map Some (enum_constant_refs env obj')) \<longrightarrow>
                         mirror_substitute env r = Some r' \<longrightarrow> r' \<in> U"
            using succU True unfolding successors_def by auto
          have "card (U - seen_objects_table s2) \<le> card (U - seen_objects_table ?s1)"
            using card_diff_mono[OF fin walker_seen_mono(2)[OF it2]] .
          then have fuel2: "card (U - seen_objects_table s2) < n" using fuel1 by simp
          have "oop_iterate n env level sg (map Some (enum_constant_refs env obj')) s2 \<noteq> None"
            using "2.IH"(2)[OF Walk it2 refl True fin cl refs2 fuel2] .
          then show ?thesis using Walk it2 True by (auto split: option.splits sum.splits)
        qed
      qed
    qed
  qed
next
  case (3 n env level sg s)
  then show ?case by simp
next
  case (4 n env level sg ps s)
  then show ?case by simp
next
  case (5 n env level sg obj ps s)
  note fin = "5.prems"(1) and cl = "5.prems"(2)
  have r0: "\<forall>obj'. mirror_substitute env obj = Some obj' \<longrightarrow> obj' \<in> U"
    using "5.prems"(3) by simp
  have a: "archive_reachable_objects_from n env (level + 1) sg obj s \<noteq> None"
    using "5.IH"(1)[OF fin cl r0 "5.prems"(4)] .
  show ?case
  proof (cases "archive_reachable_objects_from n env (level + 1) sg obj s")
    case None
    then show ?thesis using a by simp
  next
    case (Some res)
    show ?thesis
    proof (cases res)
      case (Inl e)
      then show ?thesis using Some by simp
    next
      case (Inr p)
      obtain b s1 where p: "p = (b, s1)" by (cases p)
      have a2: "archive_reachable_objects_from n env (level + 1) sg obj s = Some (Inr (b, s1))"
        using Some Inr p by simp
      have "card (U - seen_objects_table s1) \<le> card (U - seen_objects_table s)"
        using card_diff_mono[OF fin walker_seen_mono(1)[OF a2]] .
      then have fuel: "card (U - seen_objects_table s1) < n" using "5.prems"(4) by simp
      have rs: "\<forall>r r'. Some r \<in> set ps \<longrightarrow> mirror_substitute env r = Some r' \<longrightarrow> r' \<in> U"
        using "5.prems"(3) by simp
      have "oop_iterate n env level sg ps s1 \<noteq> None"
        using "5.IH"(2)[OF a2 refl refl fin cl rs fuel] .
      then show ?thesis using a2 by simp
    qed
  qed
qed

lemma walker_more_fuel:
  "archive_reachable_objects_from n env level sg obj s = Some res \<Longrightarrow> n \<le> m \<Longrightarrow>
     archive_reachable_objects_from m env level sg obj s = Some res"
  "oop_iterate n env level sg ps s = Some res' \<Longrightarrow> n \<le> m \<Longrightarrow>
     oop_iterate m env level sg ps s = Some res'"
proof (induction n env level sg obj s and n env level sg ps s arbitrary: res m and res' m
        rule: archive_reachable_objects_from_oop_iterate.induct)
  case (1 env level sg orig_obj s)
  then show ?case by simp
next
  case (2 n env level sg orig_obj s)
  obtain m' where m: "m = Suc m'" and le: "n \<le> m'"
    using "2.prems"(2) by (cases m) auto
  show ?case
  proof (cases "archive_reachable_objects_from_enter env level sg orig_obj s")
    case (Return r)
    then show ?thesis using "2.prems"(1) m by simp
  next
    case (Walk obj' s1)
    let ?s1 = "s1\<lparr>walker_current := Some obj'\<rparr>"
    obtain r1 where it: "oop_iterate n env level sg (obj_oop_fields env obj') ?s1 = Some r1"
      using "2.prems"(1) Walk by (cases "oop_iterate n env level sg (obj_oop_fields env obj') ?s1") auto
    have it': "oop_iterate m' env level sg (obj_oop_fields env obj') ?s1 = Some r1"
      using "2.IH"(1)[OF Walk it le] .
    show ?thesis
    proof (cases r1)
      case (Inl e)
      then show ?thesis using "2.prems"(1) Walk it it' m by simp
    next
      case (Inr s2)
      show ?thesis
      proof (cases "is_enum_obj env obj'")
        case False
        then show ?thesis using "2.prems"(1) Walk it it' m Inr by simp
      next
        case True
        obtain r2 where en: "oop_iterate n env level sg (map Some (enum_constant_refs env obj')) s2 = Some r2"
          using "2.prems"(1) Walk it Inr True
          by (cases "oop_iterate n env level sg (map Some (enum_constant_refs env obj')) s2") auto
        have it2: "oop_iterate n env level sg (obj_oop_fields env obj') ?s1 = Some (Inr s2)"
          using it Inr by simp
        have en': "oop_iterate m' env level sg (map Some (enum_constant_refs env obj')) s2 = Some r2"
          using "2.IH"(2)[OF Walk it2 refl True en le] .
        show ?thesis using "2.prems"(1) Walk it it' m Inr True en en' by simp
      qed
    qed
  qed
next
  case (3 n env level sg s)
  then show ?case by simp
next
  case (4 n env level sg ps s)
  have "oop_iterate n env level sg ps s = Some res'" using "4.prems"(1) by simp
  then have "oop_iterate m env level sg ps s = Some res'" using "4.prems"(2) by (rule "4.IH")
  then show ?case by simp
next
  case (5 n env level sg obj ps s)
  obtain r1 where a: "archive_reachable_objects_from n env (level + 1) sg obj s = Some r1"
    using "5.prems"(1) by (cases "archive_reachable_objects_from n env (level + 1) sg obj s") auto
  have a': "archive_reachable_objects_from m env (level + 1) sg obj s = Some r1"
    using "5.IH"(1)[OF a "5.prems"(2)] .
  show ?case
  proof (cases r1)
    case (Inl e)
    then show ?thesis using "5.prems"(1) a a' by simp
  next
    case (Inr p)
    obtain b s1 where p: "p = (b, s1)" by (cases p)
    have a2: "archive_reachable_objects_from n env (level + 1) sg obj s = Some (Inr (b, s1))"
      using a Inr p by simp
    have r: "oop_iterate n env level sg ps s1 = Some res'"
      using "5.prems"(1) a2 by simp
    have "oop_iterate m env level sg ps s1 = Some res'"
      using "5.IH"(2)[OF a2 refl refl r "5.prems"(2)] .
    then show ?thesis using a' Inr p by simp
  qed
qed

subsection \<open>A root that is too large\<close>

lemma walker_too_large:
  assumes sup: "is_supported_for_archiving env obj"
    and sub: "mirror_substitute env obj = Some obj'"
    and unseen: "obj' \<notin> seen_objects_table s"
    and new: "\<not> has_been_archived s obj'"
    and large: "is_too_large_to_archive env (obj_size env obj')"
  shows "archive_reachable_objects_from (Suc n) env level sg obj s
           = Some (if level = 1 then Inr (False, entered env obj' s) else Inl UnrecoverableWritingError)"
  using assms by (simp add: enter_eq)

lemma start_recording_fields:
  "seen_objects_table (start_recording_subgraph env k fmg s) = {}"
  "archived_object_cache (start_recording_subgraph env k fmg s) = archived_object_cache s"
  "pending_roots (start_recording_subgraph env k fmg s) = pending_roots s"
  "dump_time_subgraph_info_table s k = None \<Longrightarrow>
     dump_time_subgraph_info_table (start_recording_subgraph env k fmg s) k
       = Some \<lparr>info_k = get_buffered_klass env k, info_subgraph_object_klasses = None,
               info_subgraph_entry_fields = None, info_is_full_module_graph = fmg,
               info_has_non_early_klasses = False\<rparr>"
  by (simp_all add: start_recording_subgraph_def init_subgraph_info_def Let_def split: option.splits)

lemma done_recording_fields:
  "archived_object_cache (done_recording_subgraph k s) = archived_object_cache s"
  "pending_roots (done_recording_subgraph k s) = pending_roots s"
  "dump_time_subgraph_info_table (done_recording_subgraph k s) = dump_time_subgraph_info_table s"
  by (simp_all add: done_recording_subgraph_def Let_def)

text \<open>
  C3. Let \<open>archive_object\<close> fail on an object (the scratch mirror, for a class mirror)
  because it is too large. When the walker reaches the object for the first time in the
  session at level 1 it returns false, and nothing is appended to the Root Table or to the
  entry fields of the holder; \<open>archive_reachable_objects_from_static_field\<close> returns without
  an abort, the loop over the fields of the holder goes on with the next field, and
  \<open>archive_object_subgraphs\<close> on a table with this one entry point completes with a record
  that has no entry field. At any other level the walker aborts the dump.
\<close>

theorem too_large_root_is_skipped:
  assumes sup: "is_supported_for_archiving env obj"
    and sub: "mirror_substitute env obj = Some obj'"
    and new: "\<not> has_been_archived s obj'"
    and large: "is_too_large_to_archive env (obj_size env obj')"
  shows "archive_object env obj' s = (False, s)
       \<and> (obj' \<notin> seen_objects_table s \<longrightarrow>
            archive_reachable_objects_from (Suc n) env 1 sg obj s = Some (Inr (False, entered env obj' s))
          \<and> dump_time_subgraph_info_table (entered env obj' s) = dump_time_subgraph_info_table s
          \<and> pending_roots (entered env obj' s) = pending_roots s
          \<and> archived_object_cache (entered env obj' s) = archived_object_cache s
          \<and> (mirror_obj_field env k field_offset = Some obj \<longrightarrow>
                archive_reachable_objects_from_static_field (Suc n) env k field_offset s
                  = Some (Inr (entered env obj' s)))
          \<and> (mirror_obj_field env (klass f) (offset f) = Some obj \<longrightarrow>
                archive_fields_of_klass (Suc n) env (klass_name f) (f # rest) s
                  = archive_fields_of_klass (Suc n) env (klass_name f) rest (entered env obj' s))
          \<and> (level \<noteq> 1 \<longrightarrow>
                archive_reachable_objects_from (Suc n) env level sg obj s
                  = Some (Inl UnrecoverableWritingError)))
       \<and> (mirror_obj_field env (klass f) (offset f) = Some obj
            \<and> dump_time_subgraph_info_table s (klass f) = None \<longrightarrow>
            (\<exists>s' info. archive_object_subgraphs (Suc n) env [f] is_full_module_graph s = Some (Inr s')
               \<and> dump_time_subgraph_info_table s' (klass f) = Some info
               \<and> info_subgraph_entry_fields info = None
               \<and> pending_roots s' = pending_roots s
               \<and> archived_object_cache s' = archived_object_cache s))"
proof -
  have a: "archive_object env obj' s = (False, s)"
    using new large by (rule archive_object_too_large)
  have w: "archive_reachable_objects_from (Suc n) env level sg obj t
           = Some (if level = 1 then Inr (False, entered env obj' t) else Inl UnrecoverableWritingError)"
    if "obj' \<notin> seen_objects_table t" "\<not> has_been_archived t obj'" for t level sg
    using walker_too_large[OF sup sub that large] .
  have e: "dump_time_subgraph_info_table (entered env obj' t) = dump_time_subgraph_info_table t
         \<and> pending_roots (entered env obj' t) = pending_roots t
         \<and> archived_object_cache (entered env obj' t) = archived_object_cache t"
    if "\<not> has_been_archived t obj'" for t
    using entered_fields(2) entered_too_large[OF that large] by simp
  have sf: "archive_reachable_objects_from_static_field (Suc n) env k field_offset t
              = Some (Inr (entered env obj' t))"
    if "obj' \<notin> seen_objects_table t" "\<not> has_been_archived t obj'"
      "mirror_obj_field env k field_offset = Some obj" for t k field_offset
    using w[OF that(1,2), of 1 k] that(3)
    by (simp add: archive_reachable_objects_from_static_field_def)
  have fk: "archive_fields_of_klass (Suc n) env (klass_name f) (f # rest) t
              = archive_fields_of_klass (Suc n) env (klass_name f) rest (entered env obj' t)"
    if "obj' \<notin> seen_objects_table t" "\<not> has_been_archived t obj'"
      "mirror_obj_field env (klass f) (offset f) = Some obj" for t rest
    using sf[OF that] by simp
  have whole: "\<exists>s' info. archive_object_subgraphs (Suc n) env [f] is_full_module_graph s = Some (Inr s')
               \<and> dump_time_subgraph_info_table s' (klass f) = Some info
               \<and> info_subgraph_entry_fields info = None
               \<and> pending_roots s' = pending_roots s
               \<and> archived_object_cache s' = archived_object_cache s"
    if m: "mirror_obj_field env (klass f) (offset f) = Some obj"
      and t: "dump_time_subgraph_info_table s (klass f) = None"
  proof -
    let ?s0 = "s\<lparr>stats := (stats s)\<lparr>num_total_subgraph_recordings := 0, num_total_walked_objs := 0,
                              num_total_archived_objs := 0, num_total_recorded_klasses := 0,
                              num_total_verifications := 0\<rparr>\<rparr>"
    let ?s1 = "start_recording_subgraph env (klass f) is_full_module_graph ?s0"
    let ?s2 = "entered env obj' ?s1"
    let ?s3 = "done_recording_subgraph (klass f) ?s2"
    have c1: "archived_object_cache ?s1 = archived_object_cache s"
      by (simp add: start_recording_fields)
    have n1: "\<not> has_been_archived ?s1 obj'"
      using new c1 by (simp add: has_been_archived_def)
    have u1: "obj' \<notin> seen_objects_table ?s1" by (simp add: start_recording_fields)
    have "archive_fields_of_klass (Suc n) env (klass_name f) [f] ?s1 = Some (Inr ([], ?s2))"
      using fk[OF u1 n1 m, of "[]"] by simp
    then have r: "archive_object_subgraphs (Suc n) env [f] is_full_module_graph s = Some (Inr ?s3)"
      by (simp add: archive_object_subgraphs_def)
    have t0: "dump_time_subgraph_info_table ?s0 (klass f) = None" using t by simp
    have "dump_time_subgraph_info_table ?s3 (klass f)
            = Some \<lparr>info_k = get_buffered_klass env (klass f), info_subgraph_object_klasses = None,
               info_subgraph_entry_fields = None, info_is_full_module_graph = is_full_module_graph,
               info_has_non_early_klasses = False\<rparr>"
      using e[OF n1] start_recording_fields(4)[OF t0] by (simp add: done_recording_fields)
    moreover have "pending_roots ?s3 = pending_roots s"
      using e[OF n1] by (simp add: done_recording_fields start_recording_fields)
    moreover have "archived_object_cache ?s3 = archived_object_cache s"
      using e[OF n1] c1 by (simp add: done_recording_fields)
    ultimately show ?thesis using r by simp
  qed
  show ?thesis using a w[OF _ new] e[OF new] sf[OF _ new] fk[OF _ new] whole by simp
qed

theorem too_large_root_is_skipped_witness:
  "archive_object example_env 3 example_dump0 = (False, example_dump0)
   \<and> returned (archive_reachable_objects_from 3 example_env 1 7 3 example_dump) = Some False
   \<and> archive_reachable_objects_from 3 example_env 2 7 3 example_dump = Some (Inl UnrecoverableWritingError)
   \<and> (\<exists>s' info.
         archive_object_subgraphs 3 example_env
           [\<lparr>klass_name = ''Holder'', field_name = ''big'', klass = 7, offset = 120\<rparr>] False example_dump0
           = Some (Inr s')
         \<and> dump_time_subgraph_info_table s' 7 = Some info
         \<and> info_subgraph_entry_fields info = None
         \<and> pending_roots s' = []
         \<and> archived_object_cache s' = [])"
proof -
  have h: "is_supported_for_archiving example_env 3" "mirror_substitute example_env 3 = Some 3"
    "is_too_large_to_archive example_env (obj_size example_env 3)"
    "\<not> has_been_archived example_dump0 3" "\<not> has_been_archived example_dump 3"
    "3 \<notin> seen_objects_table example_dump"
    by (simp_all add: example_env_def mirror_substitute_def example_dump0_def example_dump_def
          has_been_archived_def)
  have f: "mirror_obj_field example_env
             (klass \<lparr>klass_name = ''Holder'', field_name = ''big'', klass = 7, offset = 120\<rparr>)
             (offset \<lparr>klass_name = ''Holder'', field_name = ''big'', klass = 7, offset = 120\<rparr>) = Some 3"
    "dump_time_subgraph_info_table example_dump0
       (klass \<lparr>klass_name = ''Holder'', field_name = ''big'', klass = 7, offset = 120\<rparr>) = None"
    by (simp_all add: example_env_def example_dump0_def example_dump_def)
  have three: "(3::nat) = Suc 2" by simp
  note t0 = too_large_root_is_skipped [OF h(1,2,4,3),
      of 2 7 7 120 "\<lparr>klass_name = ''Holder'', field_name = ''big'', klass = 7, offset = 120\<rparr>" "[]" 2 False]
  note t1 = too_large_root_is_skipped [OF h(1,2,5,3),
      of 2 7 7 120 "\<lparr>klass_name = ''Holder'', field_name = ''big'', klass = 7, offset = 120\<rparr>" "[]" 2 False]
  show ?thesis
    unfolding three using t0 t1 f h(6) by (simp add: returned_def example_dump_def example_dump0_def)
qed

subsection \<open>Class mirrors in a subgraph\<close>

text \<open>
  C5, as the code has it. A class mirror that reaches the walker, at level 1 or deeper, on
  the list of \<open>can_mirror_be_used_in_subgraph\<close> or not, is replaced by its scratch mirror: when
  the scratch mirror was seen in the session the call returns true at once; otherwise the
  scratch mirror is marked as seen and archived (unless it is too large), its class is
  recorded, and its fields are walked. The walker never calls
  \<open>can_mirror_be_used_in_subgraph\<close>.
\<close>

theorem class_mirror_is_replaced_by_scratch_mirror:
  assumes mirror: "java_lang_Class_is_instance env m"
    and sup: "is_supported_for_archiving env m"
    and scratch: "scratch_java_mirror env m = Some sm"
  shows "(sm \<in> seen_objects_table s \<longrightarrow>
            archive_reachable_objects_from (Suc n) env level sg m s = Some (Inr (True, s)))
       \<and> (sm \<notin> seen_objects_table s
            \<and> (has_been_archived s sm \<or> \<not> is_too_large_to_archive env (obj_size env sm)) \<longrightarrow>
            archive_reachable_objects_from_enter env level sg m s
              = (case add_subgraph_object_klass_of env sg (obj_klass env sm) (entered env sm s) of
                   Inl e \<Rightarrow> Return (Inl e)
                 | Inr s' \<Rightarrow> Walk sm s')
            \<and> sm \<in> seen_objects_table (entered env sm s)
            \<and> has_been_archived (entered env sm s) sm)"
proof -
  have sub: "mirror_substitute env m = Some sm"
    using mirror scratch by (simp add: mirror_substitute_def)
  have a: "archive_reachable_objects_from (Suc n) env level sg m s = Some (Inr (True, s))"
    if "sm \<in> seen_objects_table s"
    using that sup sub by (simp add: enter_eq)
  have b: "archive_reachable_objects_from_enter env level sg m s
              = (case add_subgraph_object_klass_of env sg (obj_klass env sm) (entered env sm s) of
                   Inl e \<Rightarrow> Return (Inl e)
                 | Inr s' \<Rightarrow> Walk sm s')"
    if "sm \<notin> seen_objects_table s"
      "has_been_archived s sm \<or> \<not> is_too_large_to_archive env (obj_size env sm)"
    using that sup sub by (auto simp: enter_eq)
  have c: "has_been_archived (entered env sm s) sm"
    if "has_been_archived s sm \<or> \<not> is_too_large_to_archive env (obj_size env sm)"
    using that by (rule entered_archived)
  have d: "sm \<in> seen_objects_table (entered env sm s)"
    by (simp add: entered_fields)
  show ?thesis using a b c d by blast
qed

theorem class_mirror_is_replaced_by_scratch_mirror_witness:
  "java_lang_Class_is_instance example_env 5
   \<and> scratch_java_mirror example_env 5 = Some 6
   \<and> returned (archive_reachable_objects_from 3 example_env 2 7 5 example_dump) = Some True
   \<and> 6 \<in> seen_objects_table (entered example_env 6 example_dump)
   \<and> has_been_archived (entered example_env 6 example_dump) 6"
proof -
  have h: "java_lang_Class_is_instance example_env 5" "is_supported_for_archiving example_env 5"
    by (simp_all add: example_env_def)
  have sc: "scratch_java_mirror example_env 5 = Some 6" by code_simp
  have pre: "6 \<notin> seen_objects_table example_dump"
    "\<not> is_too_large_to_archive example_env (obj_size example_env 6)"
    by (simp_all add: example_env_def example_dump_def)
  have ev: "returned (archive_reachable_objects_from 3 example_env 2 7 5 example_dump) = Some True"
    by code_simp
  show ?thesis
    using class_mirror_is_replaced_by_scratch_mirror [OF h sc, of example_dump 2 2 7] h sc pre ev
    by simp
qed

text \<open>
  The claim C5 as stated fails: object 4 has a field that holds the mirror 5 of class 30, which
  is neither primitive nor the mirror of a box class. The walk from object 4 at level 1
  returns true, with object 4 and the scratch mirror 6 in the Identity Cache, and so does
  a call of the walker on the mirror at level 2.
\<close>

theorem off_list_mirror_is_archived_counterexample:
  "java_lang_Class_is_instance example_env 5
   \<and> \<not> can_mirror_be_used_in_subgraph example_env 5
   \<and> set (obj_oop_fields example_env 4) = {Some 5}
   \<and> returned (archive_reachable_objects_from 3 example_env 1 7 4 example_dump) = Some True
   \<and> map_option (map fst \<circ> archived_object_cache)
        (state_after (archive_reachable_objects_from 3 example_env 1 7 4 example_dump)) = Some [4, 6]
   \<and> returned (archive_reachable_objects_from 3 example_env 2 7 5 example_dump) = Some True"
  by code_simp

subsection \<open>Identity hashes of archived objects\<close>

lemma copy_java_mirror_hashcode_source_objs [simp]:
  "source_objs (copy_java_mirror_hashcode env m sm s) = source_objs s"
  by (simp add: copy_java_mirror_hashcode_def identity_hash_def Let_def split: option.splits)













subsection \<open>Termination of the walker\<close>

lemma has_been_archived_iff:
  "has_been_archived s x \<longleftrightarrow> x \<in> fst ` set (archived_object_cache s)"
  by (simp add: has_been_archived_def map_of_eq_None_iff)

lemma archive_object_copied_once:
  assumes "copied_once s"
  shows "copied_once (snd (archive_object env obj s))"
proof (cases rule: archive_object_cases[of s obj env])
  case old
  then show ?thesis using assms by simp
next
  case large
  then show ?thesis using assms by simp
next
  case new
  have "obj \<notin> set (source_objs s)"
    using new(1) assms by (auto simp: has_been_archived_iff copied_once_def)
  then show ?thesis
    using assms archive_object_new(2,4)[OF new(1,2)]
    by (auto simp: copied_once_def dom_update)
qed

lemma copied_once_cong:
  "source_objs s = source_objs t \<Longrightarrow> archived_object_cache s = archived_object_cache t \<Longrightarrow>
   copied_once s = copied_once t"
  by (simp add: copied_once_def)

lemma entered_copied_once:
  assumes "copied_once s"
  shows "copied_once (entered env obj s)"
proof -
  let ?s1 = "set_has_been_seen_during_subgraph_recording obj s"
  let ?s2 = "?s1\<lparr>stats := (stats ?s1)\<lparr>num_new_archived_objs := num_new_archived_objs (stats ?s1) + 1\<rparr>\<rparr>"
  have 1: "copied_once ?s1" using assms by (simp add: copied_once_def)
  then have 2: "copied_once ?s2" by (simp add: copied_once_def)
  show ?thesis
    unfolding entered_def Let_def using 1 archive_object_copied_once[OF 2] by simp
qed

lemma wp_copied_once: "walker_preserves env sg copied_once"
  unfolding walker_preserves_def
proof (intro conjI allI impI)
  fix level obj s b s'
  assume "copied_once s"
    and "archive_reachable_objects_from_enter env level sg obj s = Return (Inr (b, s'))"
  then show "copied_once s'"
    by (auto elim!: enter_ReturnE simp: entered_copied_once)
next
  fix level obj s obj' s'
  assume c: "copied_once s"
    and w: "archive_reachable_objects_from_enter env level sg obj s = Walk obj' s'"
  from w have k: "add_subgraph_object_klass_of env sg (obj_klass env obj') (entered env obj' s) = Inr s'"
    by (auto elim: enter_WalkE)
  have "copied_once s' = copied_once (entered env obj' s)"
    using add_klass_of_fields(1,4)[OF k] by (intro copied_once_cong) simp_all
  then show "copied_once s'" using entered_copied_once[OF c] by simp
next
  fix s w assume "copied_once s"
  then show "copied_once (s\<lparr>walker_current := w\<rparr>)" by (simp add: copied_once_def)
qed

lemma closed_reachable:
  assumes "root \<in> S" and "\<forall>x\<in>S. successors env x \<subseteq> S"
  shows "reachable_from env root \<subseteq> S"
proof
  fix y assume "y \<in> reachable_from env root"
  then have "(root, y) \<in> {(x, y). y \<in> successors env x}\<^sup>*"
    by (simp add: reachable_from_def)
  then show "y \<in> S"
    using assms by (induction rule: rtrancl_induct) auto
qed

text \<open>
  C4. Let \<open>U\<close> be a finite set of objects that is closed under the references the walker
  follows, cycles included, and let the walker be called on an object of \<open>U\<close>. With a bound
  on the depth of the recursion above the number of objects of \<open>U\<close> not yet seen, the walker
  ends, in an abort or with a result, and every larger bound gives the same result. An
  object that was seen is not walked again. The fields of an object are walked in a state
  in which the object is marked as seen and is in the Identity Cache. When the walker
  returns, the root is marked as seen; when it returns true, every object it marked is in
  the Identity Cache with all its successors marked, so that from a closed session (from
  the start of a session, for one) every object reachable from the root is marked and
  archived; and no object is handed twice to the writer.
\<close>

theorem walker_terminates_on_finite_graph:
  assumes fin: "finite U"
    and cl: "\<forall>x\<in>U. successors env x \<subseteq> U"
    and root: "mirror_substitute env root = Some root'"
    and inU: "root' \<in> U"
    and fuel: "card (U - seen_objects_table s) < n"
    and lvl: "1 \<le> level"
  shows "\<exists>res. (\<forall>m\<ge>n. archive_reachable_objects_from m env level sg root s = Some res)
       \<and> (root' \<in> seen_objects_table s \<and> is_supported_for_archiving env root \<longrightarrow> res = Inr (True, s))
       \<and> (\<forall>b s'. res = Inr (b, s') \<longrightarrow>
             root' \<in> seen_objects_table s' \<and> seen_objects_table s \<subseteq> seen_objects_table s'
           \<and> (b \<longrightarrow> newly_closed env s s')
           \<and> (b \<and> session_closed env s \<longrightarrow>
                session_closed env s'
              \<and> reachable_from env root' \<subseteq> seen_objects_table s'
              \<and> (\<forall>x\<in>reachable_from env root'. has_been_archived s' x))
           \<and> (copied_once s \<longrightarrow> copied_once s'))
       \<and> (\<forall>lv obj obj' t t'.
             archive_reachable_objects_from_enter env lv sg obj t = Walk obj' t' \<longrightarrow>
             obj' \<in> seen_objects_table t' \<and> has_been_archived t' obj')"
proof -
  have "archive_reachable_objects_from n env level sg root s \<noteq> None"
    using walker_enough_fuel(1)[OF fin cl _ fuel] root inU by simp
  then obtain res where res: "archive_reachable_objects_from n env level sg root s = Some res"
    by blast
  have more: "\<forall>m\<ge>n. archive_reachable_objects_from m env level sg root s = Some res"
    using walker_more_fuel(1)[OF res] by blast
  have seen: "res = Inr (True, s)"
    if "root' \<in> seen_objects_table s" "is_supported_for_archiving env root"
  proof -
    obtain k where n: "n = Suc k" using fuel by (cases n) auto
    show ?thesis using res that root unfolding n by (simp add: enter_eq split: if_splits)
  qed
  have post: "root' \<in> seen_objects_table s' \<and> seen_objects_table s \<subseteq> seen_objects_table s'
           \<and> (b \<longrightarrow> newly_closed env s s')
           \<and> (b \<and> session_closed env s \<longrightarrow>
                session_closed env s'
              \<and> reachable_from env root' \<subseteq> seen_objects_table s'
              \<and> (\<forall>x\<in>reachable_from env root'. has_been_archived s' x))
           \<and> (copied_once s \<longrightarrow> copied_once s')"
    if r: "res = Inr (b, s')" for b s'
  proof -
    have w: "archive_reachable_objects_from n env level sg root s = Some (Inr (b, s'))"
      using res r by simp
    have c: "root' \<in> seen_objects_table s'" and nc: "b \<longrightarrow> newly_closed env s s'"
      using walker_closure(1)[OF lvl w] root by auto
    have m: "seen_objects_table s \<subseteq> seen_objects_table s'"
      using walker_seen_mono(1)[OF w] .
    have reach: "session_closed env s'
              \<and> reachable_from env root' \<subseteq> seen_objects_table s'
              \<and> (\<forall>x\<in>reachable_from env root'. has_been_archived s' x)"
      if b and e: "session_closed env s"
    proof -
      have "has_been_archived s' x \<and> successors env x \<subseteq> seen_objects_table s'"
        if x: "x \<in> seen_objects_table s'" for x
      proof (cases "x \<in> seen_objects_table s")
        case True
        then have "has_been_archived s x" and "successors env x \<subseteq> seen_objects_table s"
          using e by (auto simp: session_closed_def)
        then have "has_been_archived s' x" and "successors env x \<subseteq> seen_objects_table s'"
          using walker_archived_mono(1)[OF w] m by auto
        then show ?thesis by simp
      next
        case False
        then show ?thesis using nc \<open>b\<close> x by (simp add: newly_closed_def)
      qed
      then have all: "\<forall>x\<in>seen_objects_table s'. has_been_archived s' x \<and> successors env x \<subseteq> seen_objects_table s'"
        by blast
      then have "reachable_from env root' \<subseteq> seen_objects_table s'"
        using closed_reachable[OF c] by blast
      then show ?thesis using all by (auto simp: session_closed_def)
    qed
    have co: "copied_once s'" if "copied_once s"
      using walker_invariant(1)[OF wp_copied_once that w] .
    show ?thesis
    proof (intro conjI impI)
      show "root' \<in> seen_objects_table s'" by (rule c)
      show "seen_objects_table s \<subseteq> seen_objects_table s'" by (rule m)
      show "newly_closed env s s'" if b using nc that by simp
      show "session_closed env s'" if "b \<and> session_closed env s" using reach that by simp
      show "reachable_from env root' \<subseteq> seen_objects_table s'" if "b \<and> session_closed env s"
        using reach that by simp
      show "\<forall>x\<in>reachable_from env root'. has_been_archived s' x" if "b \<and> session_closed env s"
        using reach that by simp
      show "copied_once s'" if "copied_once s" using co that by simp
    qed
  qed
  have mark: "obj' \<in> seen_objects_table t' \<and> has_been_archived t' obj'"
    if "archive_reachable_objects_from_enter env lv sg obj t = Walk obj' t'" for lv obj obj' t t'
    using enter_Walk_props(1,2)[OF that] by simp
  show ?thesis
  proof (intro exI[of _ res] conjI)
    show "\<forall>m\<ge>n. archive_reachable_objects_from m env level sg root s = Some res"
      by (rule more)
    show "root' \<in> seen_objects_table s \<and> is_supported_for_archiving env root \<longrightarrow> res = Inr (True, s)"
      using seen by simp
    show "\<forall>b s'. res = Inr (b, s') \<longrightarrow>
             root' \<in> seen_objects_table s' \<and> seen_objects_table s \<subseteq> seen_objects_table s'
           \<and> (b \<longrightarrow> newly_closed env s s')
           \<and> (b \<and> session_closed env s \<longrightarrow>
                session_closed env s'
              \<and> reachable_from env root' \<subseteq> seen_objects_table s'
              \<and> (\<forall>x\<in>reachable_from env root'. has_been_archived s' x))
           \<and> (copied_once s \<longrightarrow> copied_once s')"
      by (intro allI impI) (rule post)
    show "\<forall>lv obj obj' t t'.
             archive_reachable_objects_from_enter env lv sg obj t = Walk obj' t' \<longrightarrow>
             obj' \<in> seen_objects_table t' \<and> has_been_archived t' obj'"
      by (intro allI impI) (rule mark)
  qed
qed

theorem walker_terminates_on_finite_graph_witness:
  "mirror_substitute example_env 1 = Some 1
   \<and> 2 \<in> successors example_env 1 \<and> 1 \<in> successors example_env 2
   \<and> archive_reachable_objects_from 3 example_env 1 7 1 example_dump \<noteq> None
   \<and> returned (archive_reachable_objects_from 3 example_env 1 7 1 example_dump) = Some True
   \<and> map_option seen_objects_table
        (state_after (archive_reachable_objects_from 3 example_env 1 7 1 example_dump)) = Some {1, 2}
   \<and> map_option source_objs
        (state_after (archive_reachable_objects_from 3 example_env 1 7 1 example_dump)) = Some [1, 2]
   \<and> archive_reachable_objects_from 7 example_env 1 7 1 example_dump
       = archive_reachable_objects_from 3 example_env 1 7 1 example_dump"
proof -
  have m: "mirror_substitute example_env x = Some x" if "x = 1 \<or> x = 2" for x
    using that by (auto simp: mirror_substitute_def example_env_def)
  have s1: "successors example_env 1 = {2}" and s2: "successors example_env 2 = {1}"
    using m by (auto simp: successors_def example_env_def mirror_substitute_def)
  have h: "finite {1, 2::nat}" "\<forall>x\<in>{1, 2}. successors example_env x \<subseteq> {1, 2}"
    "(1::nat) \<in> {1, 2}" "card ({1, 2} - seen_objects_table example_dump) < 3" "(1::int) \<le> 1"
    using s1 s2 by (simp_all add: example_dump_def)
  obtain res where res: "\<forall>m\<ge>3. archive_reachable_objects_from m example_env 1 7 1 example_dump = Some res"
    using walker_terminates_on_finite_graph [OF h(1,2) m[of 1] h(3,4,5), of 7] by auto
  have a: "archive_reachable_objects_from 3 example_env 1 7 1 example_dump \<noteq> None"
    and b: "archive_reachable_objects_from 7 example_env 1 7 1 example_dump
       = archive_reachable_objects_from 3 example_env 1 7 1 example_dump"
    using res by simp_all
  have ev: "returned (archive_reachable_objects_from 3 example_env 1 7 1 example_dump) = Some True
   \<and> map_option seen_objects_table
        (state_after (archive_reachable_objects_from 3 example_env 1 7 1 example_dump)) = Some {1, 2}
   \<and> map_option source_objs
        (state_after (archive_reachable_objects_from 3 example_env 1 7 1 example_dump)) = Some [1, 2]"
    by code_simp
  show ?thesis using a b ev m[of 1] s1 s2 by simp
qed

subsection \<open>The Permanent-Index Table\<close>

lemma decode_upper: "0 \<le> p \<Longrightarrow> p < 2 ^ n \<Longrightarrow> drop_bit n (push_bit n (i::int) + p) = i"
  by (simp add: drop_bit_eq_div push_bit_eq_mult)

lemma decode_lower: "0 \<le> p \<Longrightarrow> p < 2 ^ n \<Longrightarrow> (push_bit n (i::int) + p) AND (2 ^ n - 1) = p"
  by (simp add: push_bit_eq_mult flip: mask_eq_exp_minus_1 take_bit_eq_mask) (simp add: take_bit_eq_mod)

lemma add_is_or:
  assumes "0 \<le> p" "p < 2 ^ n"
  shows "push_bit n (i::int) + p = push_bit n i OR p"
proof -
  have p: "take_bit n p = p" using assms by (simp add: take_bit_int_eq_self)
  have "push_bit n i AND take_bit n p = 0"
    by (auto simp: bit_eq_iff bit_simps)
  then show ?thesis using p by (simp add: disjunctive_add_eq_or)
qed

lemma encode_small:
  assumes "i < n" "p < 2 ^ shift" "n * 2 ^ shift \<le> (2::nat) ^ 31"
  shows "encode shift i p = push_bit shift (int i) + int p"
proof -
  have "Suc i \<le> n" using assms(1) by simp
  then have "Suc i * 2 ^ shift \<le> n * 2 ^ shift" by (rule mult_le_mono1)
  then have le: "Suc i * 2 ^ shift \<le> (2::nat) ^ 31" using assms(3) by simp
  have "i * 2 ^ shift + p < Suc i * 2 ^ shift" using assms(2) by simp
  then have "i * 2 ^ shift + p < (2::nat) ^ 31" using le by simp
  then have "int (i * 2 ^ shift + p) < int (2 ^ 31)" by (simp only: of_nat_less_iff)
  then have b: "int i * 2 ^ shift + int p < 2 ^ 31" by simp
  have lo: "- (2 ^ 31) \<le> int i * (2::int) ^ shift"
    by (rule order_trans[of _ 0]) simp_all
  have lo': "- (2 ^ 31) \<le> int i * (2::int) ^ shift + int p"
    by (rule order_trans[of _ 0]) simp_all
  have b1: "int i * 2 ^ shift < (2::int) ^ 31"
    by (rule le_less_trans[OF _ b]) simp
  have 1: "int32 (push_bit shift (int i)) = push_bit shift (int i)"
    unfolding int32_def push_bit_eq_mult using lo b1 by (rule signed_take_bit_int_eq_self)
  have 2: "int32 (push_bit shift (int i) + int p) = push_bit shift (int i) + int p"
    unfolding int32_def push_bit_eq_mult using lo' b by (rule signed_take_bit_int_eq_self)
  show ?thesis by (simp add: encode_def 1 2)
qed

lemma index_segment_dom:
  "fst ` set (index_segment shift i xs j tbl) = fst ` set tbl \<union> set xs"
  by (induction xs arbitrary: j tbl) (auto simp: dom_update)

lemma index_segment_val:
  "map_of (index_segment shift (int i) xs (int j) tbl) k = Some v \<Longrightarrow>
   map_of tbl k = Some v \<or> (\<exists>p<length xs. xs ! p = k \<and> v = encode shift i (j + p))"
proof (induction xs arbitrary: j tbl)
  case Nil
  then show ?case by simp
next
  case (Cons x xs)
  have "map_of (index_segment shift (int i) xs (int (Suc j))
          (AList.update x (int32 (int32 (push_bit shift (int i)) + int j)) tbl)) k = Some v"
    using Cons.prems by (simp add: add.commute)
  from Cons.IH[OF this]
  consider "map_of (AList.update x (int32 (int32 (push_bit shift (int i)) + int j)) tbl) k = Some v"
    | p where "p < length xs" "xs ! p = k" "v = encode shift i (Suc j + p)"
    by blast
  then show ?case
  proof cases
    case 1
    show ?thesis
    proof (cases "k = x")
      case True
      then have "v = encode shift i (j + 0)" using 1 by (simp add: update_conv' encode_def)
      then show ?thesis using True by (intro disjI2 exI[of _ 0]) simp
    next
      case False
      then show ?thesis using 1 by (simp add: update_conv')
    qed
  next
    case 2
    then show ?thesis by (intro disjI2 exI[of _ "Suc p"]) simp
  qed
qed

lemma index_segments_ok:
  assumes "\<forall>i'. i \<le> i' \<and> i' < i + c \<longrightarrow>
             (\<exists>a. obj_at (roots s) (int i' + first) = Inr (Some a) \<and> heap_obj_arrays s a = Some (segf i'))"
  shows "\<exists>tbl'. index_segments s first c (int i) tbl = Inr tbl'
     \<and> fst ` set tbl' = fst ` set tbl \<union> (\<Union>i'\<in>{i..<i + c}. set (segf i'))
     \<and> (\<forall>k v. map_of tbl' k = Some v \<longrightarrow>
           map_of tbl k = Some v
           \<or> (\<exists>i' p. i \<le> i' \<and> i' < i + c \<and> p < length (segf i') \<and> segf i' ! p = k
                \<and> v = encode (PERMOBJ_SEGMENT_MAX_SHIFT s) i' p))"
  using assms
proof (induction c arbitrary: i tbl)
  case 0
  then show ?case by simp
next
  case (Suc c)
  let ?sh = "PERMOBJ_SEGMENT_MAX_SHIFT s"
  obtain a where a: "obj_at (roots s) (int i + first) = Inr (Some a)"
    and el: "heap_obj_arrays s a = Some (segf i)"
    using Suc.prems[rule_format, of i] by auto
  let ?t1 = "index_segment ?sh (int i) (segf i) 0 tbl"
  have step: "index_segments s first (Suc c) (int i) tbl = index_segments s first c (int (Suc i)) ?t1"
    using a el by (simp add: as_objArray_def add.commute)
  have rest: "\<forall>i'. Suc i \<le> i' \<and> i' < Suc i + c \<longrightarrow>
             (\<exists>a. obj_at (roots s) (int i' + first) = Inr (Some a) \<and> heap_obj_arrays s a = Some (segf i'))"
    using Suc.prems by auto
  from Suc.IH[OF rest, of ?t1]
  obtain tbl' where r: "index_segments s first c (int (Suc i)) ?t1 = Inr tbl'"
    and d: "fst ` set tbl' = fst ` set ?t1 \<union> (\<Union>i'\<in>{Suc i..<Suc i + c}. set (segf i'))"
    and v: "\<forall>k v. map_of tbl' k = Some v \<longrightarrow>
           map_of ?t1 k = Some v
           \<or> (\<exists>i' p. Suc i \<le> i' \<and> i' < Suc i + c \<and> p < length (segf i') \<and> segf i' ! p = k
                \<and> v = encode ?sh i' p)"
    by blast
  have d': "fst ` set tbl' = fst ` set tbl \<union> (\<Union>i'\<in>{i..<i + Suc c}. set (segf i'))"
  proof -
    have "{i..<i + Suc c} = insert i {Suc i..<Suc i + c}" by auto
    then show ?thesis unfolding d index_segment_dom by auto
  qed
  have v': "map_of tbl k = Some w
           \<or> (\<exists>i' p. i \<le> i' \<and> i' < i + Suc c \<and> p < length (segf i') \<and> segf i' ! p = k
                \<and> w = encode ?sh i' p)"
    if "map_of tbl' k = Some w" for k w
  proof -
    from v that consider "map_of ?t1 k = Some w"
      | i' p where "Suc i \<le> i'" "i' < Suc i + c" "p < length (segf i')" "segf i' ! p = k"
          "w = encode ?sh i' p"
      by blast
    then show ?thesis
    proof cases
      case 1
      then have "map_of tbl k = Some w \<or> (\<exists>p<length (segf i). segf i ! p = k \<and> w = encode ?sh i (0 + p))"
        using index_segment_val[of ?sh i "segf i" 0 tbl k w] by simp
      then show ?thesis by auto
    next
      case 2
      then have "i \<le> i' \<and> i' < i + Suc c \<and> p < length (segf i') \<and> segf i' ! p = k \<and> w = encode ?sh i' p"
        by simp
      then show ?thesis by blast
    qed
  qed
  show ?case
  proof (intro exI[of _ tbl'] conjI allI impI)
    show "index_segments s first (Suc c) (int i) tbl = Inr tbl'" using step r by simp
    show "fst ` set tbl' = fst ` set tbl \<union> (\<Union>i'\<in>{i..<i + Suc c}. set (segf i'))" by (rule d')
    show "map_of tbl k = Some w
           \<or> (\<exists>i' p. i \<le> i' \<and> i' < i + Suc c \<and> p < length (segf i') \<and> segf i' ! p = k
                \<and> w = encode ?sh i' p)" if "map_of tbl' k = Some w" for k w
      using that by (rule v')
  qed
qed

lemma obj_at_nat: "k < length a \<Longrightarrow> obj_at a (int k) = Inr (a ! k)"
  by (simp add: obj_at_def)

text \<open>
  C8. Let the tail of the root array be well formed and the Permanent-Index Table not yet
  built. Then \<open>get_archived_object_permanent_index\<close> builds one table, whatever the object
  of the first call, and answers every later call from it. An object held in a segment gets
  an index \<open>(i << SHIFT) | j\<close> of a position \<open>j\<close> of a segment \<open>i\<close> that holds the object, and
  \<open>get_archived_object\<close> of that index is the object; an object held in no segment gets -1.
\<close>

theorem permanent_index_round_trip:
  assumes wf: "permobj_tail_wf s"
    and fresh: "permanent_index_table s = None"
  shows "\<exists>tbl. \<forall>obj. \<exists>idx.
           get_archived_object_permanent_index obj s = Inr (idx, s\<lparr>permanent_index_table := Some tbl\<rparr>)
         \<and> get_archived_object_permanent_index obj (s\<lparr>permanent_index_table := Some tbl\<rparr>)
             = Inr (idx, s\<lparr>permanent_index_table := Some tbl\<rparr>)
         \<and> ((\<exists>i<nat (permobj_segments s). obj \<in> set (permobj_segment s i)) \<longrightarrow>
               (\<exists>i j. i < nat (permobj_segments s) \<and> j < length (permobj_segment s i)
                  \<and> permobj_segment s i ! j = obj
                  \<and> idx = push_bit (PERMOBJ_SEGMENT_MAX_SHIFT s) (int i) OR int j)
             \<and> get_archived_object idx (s\<lparr>permanent_index_table := Some tbl\<rparr>) = Inr obj)
         \<and> (\<not> (\<exists>i<nat (permobj_segments s). obj \<in> set (permobj_segment s i)) \<longrightarrow> idx = - 1)"
proof -
  let ?n = "nat (permobj_segments s)"
  let ?sh = "PERMOBJ_SEGMENT_MAX_SHIFT s"
  let ?first = "int (length (roots s)) - permobj_segments s"
  have wf': "0 < permobj_segments s \<and> ?n \<le> length (roots s)
      \<and> (\<forall>i<?n. \<exists>a elems. roots s ! (length (roots s) - ?n + i) = Some a
              \<and> heap_obj_arrays s a = Some elems \<and> length elems \<le> 2 ^ ?sh)
      \<and> ?n * 2 ^ ?sh \<le> 2 ^ 31"
    using wf unfolding permobj_tail_wf_def .
  have pos: "0 < permobj_segments s" using wf' by (rule conjunct1)
  have le: "?n \<le> length (roots s)" using wf' by (elim conjE)
  have segs: "\<forall>i<?n. \<exists>a elems. roots s ! (length (roots s) - ?n + i) = Some a
              \<and> heap_obj_arrays s a = Some elems \<and> length elems \<le> 2 ^ ?sh"
    using wf' by (elim conjE)
  have fit: "?n * 2 ^ ?sh \<le> 2 ^ 31" using wf' by (elim conjE)
  have root: "obj_at (roots s) (int i + ?first) = Inr (roots s ! (length (roots s) - ?n + i))"
    if "i < ?n" for i
  proof -
    have e: "int i + ?first = int (length (roots s) - ?n + i)" using le pos that by linarith
    have l: "length (roots s) - ?n + i < length (roots s)" using that le pos by linarith
    show ?thesis unfolding e using l by (rule obj_at_nat)
  qed
  have seg: "\<exists>a. roots s ! (length (roots s) - ?n + i) = Some a
               \<and> heap_obj_arrays s a = Some (permobj_segment s i)
               \<and> length (permobj_segment s i) \<le> 2 ^ ?sh"
    if i: "i < ?n" for i
  proof -
    obtain a elems where "roots s ! (length (roots s) - ?n + i) = Some a"
      "heap_obj_arrays s a = Some elems" "length elems \<le> 2 ^ ?sh"
      using segs[rule_format, OF i] by blast
    then show ?thesis by (simp add: permobj_segment_def)
  qed
  have pre: "\<forall>i'. 0 \<le> i' \<and> i' < 0 + ?n \<longrightarrow>
             (\<exists>a. obj_at (roots s) (int i' + ?first) = Inr (Some a)
                \<and> heap_obj_arrays s a = Some (permobj_segment s i'))"
  proof (intro allI impI)
    fix i' assume "0 \<le> i' \<and> i' < 0 + ?n"
    then have i: "i' < ?n" by simp
    obtain a where "roots s ! (length (roots s) - ?n + i') = Some a"
      "heap_obj_arrays s a = Some (permobj_segment s i')"
      using seg[OF i] by blast
    then show "\<exists>a. obj_at (roots s) (int i' + ?first) = Inr (Some a)
                \<and> heap_obj_arrays s a = Some (permobj_segment s i')"
      using root[OF i] by simp
  qed
  have "\<exists>tbl. index_segments s ?first ?n 0 [] = Inr tbl
     \<and> fst ` set tbl = (\<Union>i'\<in>{0..<?n}. set (permobj_segment s i'))
     \<and> (\<forall>k w. map_of tbl k = Some w \<longrightarrow>
              (\<exists>i' p. i' < ?n \<and> p < length (permobj_segment s i') \<and> permobj_segment s i' ! p = k
                \<and> w = encode ?sh i' p))"
    using index_segments_ok[OF pre, of "[]"] by simp
  then obtain tbl where b: "index_segments s ?first ?n 0 [] = Inr tbl"
    and d: "fst ` set tbl = (\<Union>i'\<in>{0..<?n}. set (permobj_segment s i'))"
    and v: "\<forall>k w. map_of tbl k = Some w \<longrightarrow>
              (\<exists>i' p. i' < ?n \<and> p < length (permobj_segment s i') \<and> permobj_segment s i' ! p = k
                \<and> w = encode ?sh i' p)"
    by blast
  let ?s' = "s\<lparr>permanent_index_table := Some tbl\<rparr>"
  have g1: "get_archived_object_permanent_index obj s
              = Inr (case map_of tbl obj of None \<Rightarrow> - 1 | Some n \<Rightarrow> n, ?s')" for obj
    using pos fresh b by (simp add: get_archived_object_permanent_index_def)
  have g2: "get_archived_object_permanent_index obj ?s'
              = Inr (case map_of tbl obj of None \<Rightarrow> - 1 | Some n \<Rightarrow> n, ?s')" for obj
    using pos by (simp add: get_archived_object_permanent_index_def)
  have dom: "(map_of tbl obj \<noteq> None) = (\<exists>i<?n. obj \<in> set (permobj_segment s i))" for obj
  proof -
    have "(map_of tbl obj \<noteq> None) = (obj \<in> fst ` set tbl)"
      by (simp add: map_of_eq_None_iff)
    also have "\<dots> = (obj \<in> (\<Union>i'\<in>{0..<?n}. set (permobj_segment s i')))"
      by (simp only: d)
    also have "\<dots> = (\<exists>i<?n. obj \<in> set (permobj_segment s i))"
      by auto
    finally show ?thesis .
  qed
  have tail: "(\<exists>i j. i < ?n \<and> j < length (permobj_segment s i) \<and> permobj_segment s i ! j = obj
                  \<and> w = push_bit ?sh (int i) OR int j)
             \<and> get_archived_object w ?s' = Inr obj"
    if m: "map_of tbl obj = Some w" for obj w
  proof -
    obtain i p where i: "i < ?n" and p: "p < length (permobj_segment s i)"
      and e: "permobj_segment s i ! p = obj" and w: "w = encode ?sh i p"
      using v m by blast
    obtain a where a: "roots s ! (length (roots s) - ?n + i) = Some a"
      and h: "heap_obj_arrays s a = Some (permobj_segment s i)"
      and l: "length (permobj_segment s i) \<le> 2 ^ ?sh"
      using seg[OF i] by blast
    have p2: "p < 2 ^ ?sh" using p l by simp
    then have "int p < int (2 ^ ?sh)" by (simp only: of_nat_less_iff)
    then have p2': "int p < 2 ^ ?sh" by simp
    have w': "w = push_bit ?sh (int i) + int p"
      unfolding w using i p2 fit by (rule encode_small)
    have up: "drop_bit ?sh w = int i" unfolding w' using p2' by (intro decode_upper) simp_all
    have lo: "w AND PERMOBJ_SEGMENT_MAX_MASK ?s' = int p"
      unfolding w' PERMOBJ_SEGMENT_MAX_MASK_def using p2' by (simp add: decode_lower)
    have orf: "w = push_bit ?sh (int i) OR int p"
      unfolding w' using p2' by (intro add_is_or) simp_all
    have "get_archived_object w ?s' = obj_at (permobj_segment s i) (int p)"
      using root[OF i] a h up lo
      by (simp add: get_archived_object_def as_objArray_def Let_def)
    then have "get_archived_object w ?s' = Inr obj"
      using obj_at_nat[OF p] e by simp
    moreover have "\<exists>i j. i < ?n \<and> j < length (permobj_segment s i) \<and> permobj_segment s i ! j = obj
                  \<and> w = push_bit ?sh (int i) OR int j"
      using i p e orf by blast
    ultimately show ?thesis by simp
  qed
  show ?thesis
  proof (intro exI[of _ tbl] allI)
    fix obj
    show "\<exists>idx.
           get_archived_object_permanent_index obj s = Inr (idx, ?s')
         \<and> get_archived_object_permanent_index obj ?s' = Inr (idx, ?s')
         \<and> ((\<exists>i<?n. obj \<in> set (permobj_segment s i)) \<longrightarrow>
               (\<exists>i j. i < ?n \<and> j < length (permobj_segment s i)
                  \<and> permobj_segment s i ! j = obj
                  \<and> idx = push_bit ?sh (int i) OR int j)
             \<and> get_archived_object idx ?s' = Inr obj)
         \<and> (\<not> (\<exists>i<?n. obj \<in> set (permobj_segment s i)) \<longrightarrow> idx = - 1)"
    proof (cases "map_of tbl obj")
      case None
      have n: "\<not> (\<exists>i<?n. obj \<in> set (permobj_segment s i))" using dom[of obj] None by simp
      show ?thesis
      proof (intro exI[of _ "- 1"] conjI impI)
        show "get_archived_object_permanent_index obj s = Inr (- 1, ?s')"
          unfolding g1 using None by simp
        show "get_archived_object_permanent_index obj ?s' = Inr (- 1, ?s')"
          unfolding g2 using None by simp
        show "\<exists>i j. i < ?n \<and> j < length (permobj_segment s i)
                  \<and> permobj_segment s i ! j = obj
                  \<and> - 1 = push_bit ?sh (int i) OR int j"
          if "\<exists>i<?n. obj \<in> set (permobj_segment s i)" using that n by simp
        show "get_archived_object (- 1) ?s' = Inr obj"
          if "\<exists>i<?n. obj \<in> set (permobj_segment s i)" using that n by simp
      qed simp
    next
      case (Some w)
      have y: "\<exists>i<?n. obj \<in> set (permobj_segment s i)" using dom[of obj] Some by simp
      show ?thesis
      proof (intro exI[of _ w] conjI impI)
        show "get_archived_object_permanent_index obj s = Inr (w, ?s')"
          unfolding g1 using Some by simp
        show "get_archived_object_permanent_index obj ?s' = Inr (w, ?s')"
          unfolding g2 using Some by simp
        show "\<exists>i j. i < ?n \<and> j < length (permobj_segment s i)
                  \<and> permobj_segment s i ! j = obj
                  \<and> w = push_bit ?sh (int i) OR int j"
          using tail[OF Some] by (rule conjunct1)
        show "get_archived_object w ?s' = Inr obj"
          using tail[OF Some] by (rule conjunct2)
        show "w = - 1" if "\<not> (\<exists>i<?n. obj \<in> set (permobj_segment s i))"
          using that y by simp
      qed
    qed
  qed
qed

theorem permanent_index_round_trip_witness:
  "permobj_tail_wf permobj_runtime
   \<and> Some 22 \<in> set (permobj_segment permobj_runtime 0)
   \<and> (\<exists>idx s'. get_archived_object_permanent_index (Some 22) permobj_runtime = Inr (idx, s')
         \<and> get_archived_object idx s' = Inr (Some 22))
   \<and> map_sum id fst (get_archived_object_permanent_index (Some 22) permobj_runtime) = Inr 2
   \<and> get_archived_object 2 permobj_runtime = Inr (Some 22)
   \<and> map_sum id fst (get_archived_object_permanent_index (Some 21) permobj_runtime) = Inr 5
   \<and> get_archived_object 5 permobj_runtime = Inr (Some 21)
   \<and> map_sum id fst (get_archived_object_permanent_index (Some 10) permobj_runtime) = Inr (- 1)"
proof -
  have seg0: "permobj_segment permobj_runtime 0 = [Some 20, Some 21, Some 22, Some 23]"
    and seg1: "permobj_segment permobj_runtime 1 = [Some 24, Some 21]"
    by (simp_all add: permobj_segment_def permobj_runtime_def example_runtime_def)
  have two: "(\<forall>i<(2::nat). Q i) = (Q 0 \<and> Q 1)" for Q
    by (auto simp: less_2_cases_iff)
  have wf: "permobj_tail_wf permobj_runtime"
    by (simp add: permobj_tail_wf_def two permobj_runtime_def example_runtime_def)
  have fresh: "permanent_index_table permobj_runtime = None"
    by (simp add: permobj_runtime_def example_runtime_def)
  have n: "nat (permobj_segments permobj_runtime) = 2"
    by (simp add: permobj_runtime_def example_runtime_def)
  have in_tail: "\<exists>i<nat (permobj_segments permobj_runtime). Some 22 \<in> set (permobj_segment permobj_runtime i)"
    unfolding n using seg0 by (intro exI[of _ 0]) simp
  obtain tbl where t: "\<forall>obj. \<exists>idx.
           get_archived_object_permanent_index obj permobj_runtime
             = Inr (idx, permobj_runtime\<lparr>permanent_index_table := Some tbl\<rparr>)
         \<and> get_archived_object_permanent_index obj (permobj_runtime\<lparr>permanent_index_table := Some tbl\<rparr>)
             = Inr (idx, permobj_runtime\<lparr>permanent_index_table := Some tbl\<rparr>)
         \<and> ((\<exists>i<nat (permobj_segments permobj_runtime). obj \<in> set (permobj_segment permobj_runtime i)) \<longrightarrow>
               (\<exists>i j. i < nat (permobj_segments permobj_runtime) \<and> j < length (permobj_segment permobj_runtime i)
                  \<and> permobj_segment permobj_runtime i ! j = obj
                  \<and> idx = push_bit (PERMOBJ_SEGMENT_MAX_SHIFT permobj_runtime) (int i) OR int j)
             \<and> get_archived_object idx (permobj_runtime\<lparr>permanent_index_table := Some tbl\<rparr>) = Inr obj)
         \<and> (\<not> (\<exists>i<nat (permobj_segments permobj_runtime). obj \<in> set (permobj_segment permobj_runtime i)) \<longrightarrow> idx = - 1)"
    using permanent_index_round_trip [OF wf fresh] by blast
  obtain idx where "get_archived_object_permanent_index (Some 22) permobj_runtime
             = Inr (idx, permobj_runtime\<lparr>permanent_index_table := Some tbl\<rparr>)"
    and "get_archived_object idx (permobj_runtime\<lparr>permanent_index_table := Some tbl\<rparr>) = Inr (Some 22)"
    using t[rule_format, of "Some 22"] in_tail by blast
  then have rt: "\<exists>idx s'. get_archived_object_permanent_index (Some 22) permobj_runtime = Inr (idx, s')
         \<and> get_archived_object idx s' = Inr (Some 22)"
    by blast
  have ev: "map_sum id fst (get_archived_object_permanent_index (Some 22) permobj_runtime) = Inr 2
   \<and> get_archived_object 2 permobj_runtime = Inr (Some 22)
   \<and> map_sum id fst (get_archived_object_permanent_index (Some 21) permobj_runtime) = Inr 5
   \<and> get_archived_object 5 permobj_runtime = Inr (Some 21)
   \<and> map_sum id fst (get_archived_object_permanent_index (Some 10) permobj_runtime) = Inr (- 1)"
    by code_simp
  show ?thesis using wf seg0 rt ev by simp
qed

end
